theory Spec2Isabelle
  imports Main "HOL-Library.Word"
begin

section \<open>Strings of the platform\<close>

text \<open>
  A JavaScript string is a sequence of UTF-16 code units. Literals of the source are
  written \<open>js ''...''\<close> when they are ASCII and as lists of code units otherwise.
\<close>

type_synonym jsstring = "16 word list"

type_synonym buffer = "8 word list"

definition js :: "string \<Rightarrow> jsstring" where
  "js s = map of_char s"

text \<open>
  \<open>String.prototype.trim\<close> removes the WhiteSpace and LineTerminator code units of
  ECMAScript from both ends.
\<close>

definition js_whitespace :: "16 word \<Rightarrow> bool" where
  "js_whitespace c \<longleftrightarrow>
     c = 0x09 \<or> c = 0x0A \<or> c = 0x0B \<or> c = 0x0C \<or> c = 0x0D \<or> c = 0x20 \<or> c = 0xA0
     \<or> c = 0x1680 \<or> (0x2000 \<le> c \<and> c \<le> 0x200A) \<or> c = 0x2028 \<or> c = 0x2029
     \<or> c = 0x202F \<or> c = 0x205F \<or> c = 0x3000 \<or> c = 0xFEFF"

definition trim :: "jsstring \<Rightarrow> jsstring" where
  "trim s = rev (dropWhile js_whitespace (rev (dropWhile js_whitespace s)))"

text \<open>
  Matching under the \<open>i\<close> flag (without \<open>u\<close>) compares canonicalised code units. All
  patterns of the source are ASCII, and a code unit above 127 never canonicalises to an
  ASCII one, so upper-casing the ASCII letters decides every comparison made here.
\<close>

definition ascii_upper :: "16 word \<Rightarrow> 16 word" where
  "ascii_upper c = (if 0x61 \<le> c \<and> c \<le> 0x7A then c - 0x20 else c)"

fun starts_with_i :: "jsstring \<Rightarrow> jsstring \<Rightarrow> bool" where
  "starts_with_i [] s = True"
| "starts_with_i (p # ps) [] = False"
| "starts_with_i (p # ps) (c # cs) = (ascii_upper p = ascii_upper c \<and> starts_with_i ps cs)"

text \<open>\<open>s.replace(/^prefix/i, "")\<close> for a literal ASCII prefix.\<close>

definition remove_prefix_i :: "jsstring \<Rightarrow> jsstring \<Rightarrow> jsstring" where
  "remove_prefix_i p s = (if starts_with_i p s then drop (length p) s else s)"

definition is_digit :: "16 word \<Rightarrow> bool" where
  "is_digit c \<longleftrightarrow> 0x30 \<le> c \<and> c \<le> 0x39"

section \<open>Target resolver\<close>

record WecomTarget =
  touser :: "jsstring option"
  toparty :: "jsstring option"
  totag :: "jsstring option"
  chatid :: "jsstring option"

definition no_target :: WecomTarget where
  "no_target = \<lparr>touser = None, toparty = None, totag = None, chatid = None\<rparr>"

text \<open>The alternation \<open>(wecom-agent|wecom|wechatwork|wework|qywx):\<close>, tried left to right.\<close>

definition strip_namespace :: "jsstring \<Rightarrow> jsstring" where
  "strip_namespace s =
     (if starts_with_i (js ''wecom-agent:'') s then drop 12 s
      else if starts_with_i (js ''wecom:'') s then drop 6 s
      else if starts_with_i (js ''wechatwork:'') s then drop 11 s
      else if starts_with_i (js ''wework:'') s then drop 7 s
      else if starts_with_i (js ''qywx:'') s then drop 5 s
      else s)"

definition resolveWecomTarget :: "jsstring \<Rightarrow> WecomTarget option" where
  "resolveWecomTarget raw =
     (if trim raw = [] then None
      else let clean = strip_namespace (trim raw) in
        if starts_with_i (js ''party:'') clean
          then Some (no_target\<lparr>toparty := Some (trim (remove_prefix_i (js ''party:'') clean))\<rparr>)
        else if starts_with_i (js ''dept:'') clean
          then Some (no_target\<lparr>toparty := Some (trim (remove_prefix_i (js ''dept:'') clean))\<rparr>)
        else if starts_with_i (js ''tag:'') clean
          then Some (no_target\<lparr>totag := Some (trim (remove_prefix_i (js ''tag:'') clean))\<rparr>)
        else if starts_with_i (js ''group:'') clean
          then Some (no_target\<lparr>chatid := Some (trim (remove_prefix_i (js ''group:'') clean))\<rparr>)
        else if starts_with_i (js ''chat:'') clean
          then Some (no_target\<lparr>chatid := Some (trim (remove_prefix_i (js ''chat:'') clean))\<rparr>)
        else if starts_with_i (js ''user:'') clean
          then Some (no_target\<lparr>touser := Some (trim (remove_prefix_i (js ''user:'') clean))\<rparr>)
        else if starts_with_i (js ''wr'') clean \<or> starts_with_i (js ''wc'') clean
          then Some (no_target\<lparr>chatid := Some clean\<rparr>)
        else if clean \<noteq> [] \<and> list_all is_digit clean
          then Some (no_target\<lparr>toparty := Some clean\<rparr>)
        else Some (no_target\<lparr>touser := Some clean\<rparr>))"

text \<open>The fields of a target that are set, in declaration order.\<close>

datatype target_field = ToUser | ToParty | ToTag | ChatId

definition fields_set :: "WecomTarget \<Rightarrow> target_field list" where
  "fields_set t =
     (if touser t \<noteq> None then [ToUser] else []) @
     (if toparty t \<noteq> None then [ToParty] else []) @
     (if totag t \<noteq> None then [ToTag] else []) @
     (if chatid t \<noteq> None then [ChatId] else [])"

definition explicit_prefix :: "jsstring \<Rightarrow> bool" where
  "explicit_prefix clean \<longleftrightarrow>
     starts_with_i (js ''party:'') clean \<or> starts_with_i (js ''dept:'') clean \<or>
     starts_with_i (js ''tag:'') clean \<or> starts_with_i (js ''group:'') clean \<or>
     starts_with_i (js ''chat:'') clean \<or> starts_with_i (js ''user:'') clean"

section \<open>UTF-8 as the platform converts it\<close>

text \<open>
  \<open>Buffer.from(s, "utf8")\<close> pairs surrogates into code points and writes each code
  point in one to four bytes; an unpaired surrogate is written as U+FFFD. The arithmetic
  is done on natural numbers and the results are stored as bytes.
\<close>

definition is_high_surrogate :: "nat \<Rightarrow> bool" where
  "is_high_surrogate u \<longleftrightarrow> 0xD800 \<le> u \<and> u \<le> 0xDBFF"

definition is_low_surrogate :: "nat \<Rightarrow> bool" where
  "is_low_surrogate u \<longleftrightarrow> 0xDC00 \<le> u \<and> u \<le> 0xDFFF"

definition is_surrogate :: "nat \<Rightarrow> bool" where
  "is_surrogate u \<longleftrightarrow> 0xD800 \<le> u \<and> u \<le> 0xDFFF"

fun code_points :: "nat list \<Rightarrow> nat list" where
  "code_points (u # v # r) =
     (if is_high_surrogate u \<and> is_low_surrogate v
        then (0x10000 + (u - 0xD800) * 0x400 + (v - 0xDC00)) # code_points r
      else u # code_points (v # r))"
| "code_points us = us"

definition utf8_bytes_of :: "nat \<Rightarrow> nat list" where
  "utf8_bytes_of c =
     (if c < 0x80 then [c]
      else if c < 0x800 then [0xC0 + c div 64, 0x80 + c mod 64]
      else if c < 0x10000 then
        (if is_surrogate c then [0xEF, 0xBF, 0xBD]
         else [0xE0 + c div 4096, 0x80 + c div 64 mod 64, 0x80 + c mod 64])
      else [0xF0 + c div 262144, 0x80 + c div 4096 mod 64, 0x80 + c div 64 mod 64,
            0x80 + c mod 64])"

definition utf8_encode :: "jsstring \<Rightarrow> buffer" where
  "utf8_encode s = map of_nat (concat (map utf8_bytes_of (code_points (map unat s))))"

text \<open>
  \<open>buf.toString("utf8")\<close> decodes with replacement: a byte that cannot start or continue
  a sequence ends the sequence read so far, which becomes one U+FFFD, and decoding goes on
  at that byte. Overlong forms, surrogates and values above U+10FFFF are excluded by the
  range of the second byte.
\<close>

definition is_continuation :: "nat \<Rightarrow> bool" where
  "is_continuation b \<longleftrightarrow> 0x80 \<le> b \<and> b \<le> 0xBF"

definition second_byte_ok :: "nat \<Rightarrow> nat \<Rightarrow> bool" where
  "second_byte_ok lead b \<longleftrightarrow>
     (if lead = 0xE0 then 0xA0 else if lead = 0xF0 then 0x90 else 0x80) \<le> b \<and>
     b \<le> (if lead = 0xED then 0x9F else if lead = 0xF4 then 0x8F else 0xBF)"

fun utf8_code_points :: "nat list \<Rightarrow> nat list" where
  "utf8_code_points [] = []"
| "utf8_code_points (b # bs) =
     (if b < 0x80 then b # utf8_code_points bs
      else if 0xC2 \<le> b \<and> b \<le> 0xDF then
        (case bs of
           [] \<Rightarrow> [0xFFFD]
         | b1 # r1 \<Rightarrow>
             if is_continuation b1
               then ((b - 0xC0) * 64 + (b1 - 0x80)) # utf8_code_points r1
             else 0xFFFD # utf8_code_points bs)
      else if 0xE0 \<le> b \<and> b \<le> 0xEF then
        (case bs of
           [] \<Rightarrow> [0xFFFD]
         | b1 # r1 \<Rightarrow>
             if second_byte_ok b b1 then
               (case r1 of
                  [] \<Rightarrow> [0xFFFD]
                | b2 # r2 \<Rightarrow>
                    if is_continuation b2
                      then ((b - 0xE0) * 4096 + (b1 - 0x80) * 64 + (b2 - 0x80)) # utf8_code_points r2
                    else 0xFFFD # utf8_code_points r1)
             else 0xFFFD # utf8_code_points bs)
      else if 0xF0 \<le> b \<and> b \<le> 0xF4 then
        (case bs of
           [] \<Rightarrow> [0xFFFD]
         | b1 # r1 \<Rightarrow>
             if second_byte_ok b b1 then
               (case r1 of
                  [] \<Rightarrow> [0xFFFD]
                | b2 # r2 \<Rightarrow>
                    if is_continuation b2 then
                      (case r2 of
                         [] \<Rightarrow> [0xFFFD]
                       | b3 # r3 \<Rightarrow>
                           if is_continuation b3
                             then ((b - 0xF0) * 262144 + (b1 - 0x80) * 4096 + (b2 - 0x80) * 64
                                     + (b3 - 0x80)) # utf8_code_points r3
                           else 0xFFFD # utf8_code_points r2)
                    else 0xFFFD # utf8_code_points r1)
             else 0xFFFD # utf8_code_points bs)
      else 0xFFFD # utf8_code_points bs)"

definition utf16_units_of :: "nat \<Rightarrow> nat list" where
  "utf16_units_of c =
     (if c < 0x10000 then [c]
      else [0xD800 + (c - 0x10000) div 0x400, 0xDC00 + (c - 0x10000) mod 0x400])"

definition utf8_decode :: "buffer \<Rightarrow> jsstring" where
  "utf8_decode buf = map of_nat (concat (map utf16_units_of (utf8_code_points (map unat buf))))"

text \<open>A string without unpaired surrogates.\<close>

definition well_formed :: "jsstring \<Rightarrow> bool" where
  "well_formed s \<longleftrightarrow> list_all (\<lambda>c. \<not> is_surrogate c) (code_points (map unat s))"

definition truncateUtf8Bytes :: "jsstring \<Rightarrow> nat \<Rightarrow> jsstring" where
  "truncateUtf8Bytes text maxBytes =
     (let buf = utf8_encode text in
      if length buf \<le> maxBytes then text
      else utf8_decode (drop (length buf - maxBytes) buf))"

section \<open>Envelope codec\<close>

text \<open>
  The codec calls two library services that are not part of the repository: base64 and
  AES-256-CBC without automatic padding. They are parameters of the model.
\<close>

record crypto_lib =
  base64_decode :: "jsstring \<Rightarrow> buffer"
  base64_encode :: "buffer \<Rightarrow> jsstring"
  aes_256_cbc_encrypt :: "buffer \<Rightarrow> buffer \<Rightarrow> buffer \<Rightarrow> buffer"
  aes_256_cbc_decrypt :: "buffer \<Rightarrow> buffer \<Rightarrow> buffer \<Rightarrow> buffer"

datatype codec_error =
    KeyMissing
  | InvalidKeyLength nat
  | InvalidPkcs7Payload
  | InvalidPkcs7Padding
  | WrongFinalBlockLength
  | InvalidPayload nat
  | InvalidMsgLength nat nat
  | ReceiveIdMismatch
  | ValueOutOfRange

definition WECOM_PKCS7_BLOCK_SIZE :: nat where
  "WECOM_PKCS7_BLOCK_SIZE = 32"

definition withPadding :: "jsstring \<Rightarrow> jsstring" where
  "withPadding trimmed = (if trimmed \<noteq> [] \<and> last trimmed = 0x3D then trimmed else trimmed @ [0x3D])"

definition decodeEncodingAESKey :: "crypto_lib \<Rightarrow> jsstring \<Rightarrow> codec_error + buffer" where
  "decodeEncodingAESKey lib encodingAESKey =
     (let trimmed = trim encodingAESKey in
      if trimmed = [] then Inl KeyMissing
      else let key = base64_decode lib (withPadding trimmed) in
        if length key \<noteq> 32 then Inl (InvalidKeyLength (length key)) else Inr key)"

text \<open>The source calls both padding functions with block size 32 only.\<close>

definition pkcs7Pad :: "buffer \<Rightarrow> nat \<Rightarrow> buffer" where
  "pkcs7Pad buf blockSize =
     (let m = length buf mod blockSize;
          pad = (if m = 0 then blockSize else blockSize - m)
      in buf @ replicate pad (of_nat pad))"

definition pkcs7Unpad :: "buffer \<Rightarrow> nat \<Rightarrow> codec_error + buffer" where
  "pkcs7Unpad buf blockSize =
     (if length buf = 0 then Inl InvalidPkcs7Payload
      else let pad = unat (buf ! (length buf - 1)) in
        if pad < 1 \<or> pad > blockSize then Inl InvalidPkcs7Padding
        else if pad > length buf then Inl InvalidPkcs7Payload
        else if \<not> list_all (\<lambda>i. unat (buf ! (length buf - 1 - i)) = pad) [0..<pad]
          then Inl InvalidPkcs7Padding
        else Inr (take (length buf - pad) buf))"

text \<open>\<open>writeUInt32BE\<close> raises a range error on a value of 2^32 or more.\<close>

definition writeUInt32BE :: "nat \<Rightarrow> codec_error + buffer" where
  "writeUInt32BE n =
     (if n \<ge> 2 ^ 32 then Inl ValueOutOfRange
      else Inr [of_nat (n div 2 ^ 24), of_nat (n div 2 ^ 16), of_nat (n div 2 ^ 8), of_nat n])"

text \<open>\<open>readUInt32BE\<close> at an offset with four bytes behind it (its caller checks this).\<close>

definition readUInt32BE :: "buffer \<Rightarrow> nat \<Rightarrow> nat" where
  "readUInt32BE buf off =
     unat (buf ! off) * 2 ^ 24 + unat (buf ! (off + 1)) * 2 ^ 16 +
     unat (buf ! (off + 2)) * 2 ^ 8 + unat (buf ! (off + 3))"

definition decryptWecomEncrypted ::
  "crypto_lib \<Rightarrow> jsstring \<Rightarrow> jsstring option \<Rightarrow> jsstring \<Rightarrow> codec_error + jsstring" where
  "decryptWecomEncrypted lib encodingAESKey receiveId encrypt =
     (case decodeEncodingAESKey lib encodingAESKey of
        Inl e \<Rightarrow> Inl e
      | Inr aesKey \<Rightarrow>
          let iv = take 16 aesKey;
              cipherText = base64_decode lib encrypt
          in if length cipherText mod 16 \<noteq> 0 then Inl WrongFinalBlockLength
          else
            (case pkcs7Unpad (aes_256_cbc_decrypt lib aesKey iv cipherText) WECOM_PKCS7_BLOCK_SIZE of
               Inl e \<Rightarrow> Inl e
             | Inr decrypted \<Rightarrow>
                 if length decrypted < 20 then Inl (InvalidPayload (length decrypted))
                 else
                   let msgLen = readUInt32BE decrypted 16;
                       msgStart = 20;
                       msgEnd = msgStart + msgLen
                   in if msgEnd > length decrypted
                        then Inl (InvalidMsgLength msgEnd (length decrypted))
                      else
                        let msg = utf8_decode (take msgLen (drop msgStart decrypted));
                            rid = (case receiveId of None \<Rightarrow> [] | Some r \<Rightarrow> r)
                        in if rid \<noteq> [] \<and> utf8_decode (drop msgEnd decrypted) \<noteq> rid
                             then Inl ReceiveIdMismatch
                           else Inr msg))"

text \<open>\<open>random16\<close> is what \<open>crypto.randomBytes(16)\<close> returns.\<close>

definition encryptWecomPlaintext ::
  "crypto_lib \<Rightarrow> jsstring \<Rightarrow> jsstring option \<Rightarrow> jsstring \<Rightarrow> buffer \<Rightarrow> codec_error + jsstring" where
  "encryptWecomPlaintext lib encodingAESKey receiveId plaintext random16 =
     (case decodeEncodingAESKey lib encodingAESKey of
        Inl e \<Rightarrow> Inl e
      | Inr aesKey \<Rightarrow>
          let iv = take 16 aesKey;
              msg = utf8_encode plaintext
          in (case writeUInt32BE (length msg) of
                Inl e \<Rightarrow> Inl e
              | Inr msgLen \<Rightarrow>
                  let rid = utf8_encode (case receiveId of None \<Rightarrow> [] | Some r \<Rightarrow> r);
                      raw = random16 @ msgLen @ msg @ rid;
                      padded = pkcs7Pad raw WECOM_PKCS7_BLOCK_SIZE;
                      encrypted = aes_256_cbc_encrypt lib aesKey iv padded
                  in Inr (base64_encode lib encrypted)))"

text \<open>
  The laws of the library that a round trip relies on: base64 decoding inverts encoding,
  and CBC decryption inverts encryption under the same key and IV, on data of whole
  blocks, without changing its length.
\<close>

definition lib_round_trips :: "crypto_lib \<Rightarrow> bool" where
  "lib_round_trips lib \<longleftrightarrow>
     (\<forall>d. base64_decode lib (base64_encode lib d) = d) \<and>
     (\<forall>k iv d. length d mod 16 = 0 \<longrightarrow>
        aes_256_cbc_decrypt lib k iv (aes_256_cbc_encrypt lib k iv d) = d \<and>
        length (aes_256_cbc_encrypt lib k iv d) = length d)"

text \<open>
  A stand-in library with these laws, to run the codec on concrete inputs: the cipher
  adds the first key byte to every byte, and the text encoding keeps each byte as one
  code unit.
\<close>

definition stand_in_lib :: crypto_lib where
  "stand_in_lib = \<lparr>
     base64_decode = map ucast,
     base64_encode = map ucast,
     aes_256_cbc_encrypt = (\<lambda>k iv d. map (\<lambda>b. b + hd k) d),
     aes_256_cbc_decrypt = (\<lambda>k iv d. map (\<lambda>b. b - hd k) d)\<rparr>"

text \<open>A Unicode scalar value: a code point that is not a surrogate.\<close>

definition is_scalar :: "nat \<Rightarrow> bool" where
  "is_scalar c \<longleftrightarrow> c < 0x110000 \<and> \<not> is_surrogate c"

text \<open>A key of 31 letters \<open>A\<close>, which the stand-in library decodes to 32 bytes.\<close>

definition example_key :: jsstring where
  "example_key = replicate 31 0x41"

text \<open>The envelope of the one-unit string U+D800 under \<open>example_key\<close> and the stand-in
  library, with sixteen random bytes 7.\<close>

definition lone_surrogate_envelope :: jsstring where
  "lone_surrogate_envelope =
     [72, 72, 72, 72, 72, 72, 72, 72, 72, 72, 72, 72, 72, 72, 72, 72,
      65, 65, 65, 68, 48, 0, 254, 74, 74, 74, 74, 74, 74, 74, 74, 74]"

section \<open>Stream and conversation store\<close>

text \<open>
  The store keeps its maps in one record, and every method takes the store and returns the
  new one. An object held in a map is only reached through its key, so mutating it in
  place is an update of the map at that key. \<open>Date.now()\<close> and the sixteen random
  bytes of a new stream id, in hex, are arguments. Of a stream's state the fields used by
  the queue and by the replies are kept. A debounce timer is the optional delay it was
  armed with; its firing is a call of \<open>requestFlush\<close>. What a method hands to the flush
  handler is returned as a list.
\<close>

datatype fallback_mode = FallbackMedia | FallbackTimeout | FallbackError

record StreamState =
  st_streamId :: jsstring
  st_msgid :: "jsstring option"
  st_conversationKey :: "jsstring option"
  st_batchKey :: "jsstring option"
  createdAt :: int
  updatedAt :: int
  started :: bool
  finished :: bool
  content :: jsstring
  images :: "(jsstring \<times> jsstring) list option"
  fallbackMode :: "fallback_mode option"

record WecomInboundMessage =
  msg_msgid :: "jsstring option"
  msg_msgtype :: "jsstring option"
  msg_chattype :: "jsstring option"
  msg_chatid :: "jsstring option"
  msg_response_url :: "jsstring option"
  msg_from_userid :: "jsstring option"
  msg_fromuserid :: "jsstring option"
  msg_stream_id :: "jsstring option"
  msg_eventtype :: "jsstring option"

text \<open>Of the webhook target, the account settings the handler reads.\<close>

record WecomWebhookTarget =
  accountId :: jsstring
  streamPlaceholderContent :: "jsstring option"
  welcomeText :: "jsstring option"
  debounceMs :: "int option"
  proxyUrl :: "jsstring option"

record PendingInbound =
  p_streamId :: jsstring
  p_conversationKey :: jsstring
  p_batchKey :: jsstring
  p_target :: WecomWebhookTarget
  p_msg :: WecomInboundMessage
  contents :: "jsstring list"
  msgids :: "jsstring list"
  p_nonce :: jsstring
  p_timestamp :: jsstring
  p_createdAt :: int
  timeout :: "int option"
  readyToFlush :: bool

record ConversationState =
  activeBatchKey :: jsstring
  queue :: "jsstring list"
  nextSeq :: nat

record StreamStore =
  streams :: "jsstring \<rightharpoonup> StreamState"
  msgidToStreamId :: "jsstring \<rightharpoonup> jsstring"
  pendingInbounds :: "jsstring \<rightharpoonup> PendingInbound"
  conversationState :: "jsstring \<rightharpoonup> ConversationState"
  streamIdToBatchKey :: "jsstring \<rightharpoonup> jsstring"
  batchStreamIdToAckStreamIds :: "jsstring \<rightharpoonup> jsstring list"

definition new_store :: StreamStore where
  "new_store = \<lparr>streams = Map.empty, msgidToStreamId = Map.empty, pendingInbounds = Map.empty,
     conversationState = Map.empty, streamIdToBatchKey = Map.empty,
     batchStreamIdToAckStreamIds = Map.empty\<rparr>"

datatype admit_status = active_new | active_merged | queued_new | queued_merged

definition DEFAULT_DEBOUNCE_MS :: int where
  "DEFAULT_DEBOUNCE_MS = 500"

definition STREAM_MAX_BYTES :: nat where
  "STREAM_MAX_BYTES = 20480"

text \<open>An optional string that is present and not empty, as \<open>if (x)\<close> tests it.\<close>

definition truthy :: "jsstring option \<Rightarrow> bool" where
  "truthy x = (case x of None \<Rightarrow> False | Some s \<Rightarrow> s \<noteq> [])"

text \<open>A sequence number in a template string: its decimal digits.\<close>

fun show_nat :: "nat \<Rightarrow> jsstring" where
  "show_nat n = (if n < 10 then [of_nat (48 + n)] else show_nat (n div 10) @ [of_nat (48 + n mod 10)])"

declare show_nat.simps [simp del]

definition queued_key :: "jsstring \<Rightarrow> nat \<Rightarrow> jsstring" where
  "queued_key conversationKey seq = conversationKey @ js ''#q'' @ show_nat seq"

definition createStream ::
  "StreamStore \<Rightarrow> jsstring option \<Rightarrow> jsstring option \<Rightarrow> jsstring option \<Rightarrow> jsstring \<Rightarrow> int
   \<Rightarrow> StreamStore \<times> jsstring" where
  "createStream store msgid conversationKey batchKey random_hex now =
     (let streamId = random_hex in
      (store\<lparr>
         msgidToStreamId :=
           (case msgid of
              None \<Rightarrow> msgidToStreamId store
            | Some m \<Rightarrow> if m \<noteq> [] then (msgidToStreamId store)(m \<mapsto> streamId)
                        else msgidToStreamId store),
         streams := (streams store)(streamId \<mapsto>
           \<lparr>st_streamId = streamId, st_msgid = msgid, st_conversationKey = conversationKey,
            st_batchKey = batchKey, createdAt = now, updatedAt = now, started = False,
            finished = False, content = [], images = None, fallbackMode = None\<rparr>),
         streamIdToBatchKey :=
           (case batchKey of
              None \<Rightarrow> streamIdToBatchKey store
            | Some b \<Rightarrow> if b \<noteq> [] then (streamIdToBatchKey store)(streamId \<mapsto> b)
                        else streamIdToBatchKey store)\<rparr>,
       streamId))"

definition getStream :: "StreamStore \<Rightarrow> jsstring \<Rightarrow> StreamState option" where
  "getStream store streamId = streams store streamId"

definition getStreamByMsgId :: "StreamStore \<Rightarrow> jsstring \<Rightarrow> jsstring option" where
  "getStreamByMsgId store msgid = msgidToStreamId store msgid"

definition setStreamIdForMsgId :: "StreamStore \<Rightarrow> jsstring \<Rightarrow> jsstring \<Rightarrow> StreamStore" where
  "setStreamIdForMsgId store msgid streamId =
     (let key = trim msgid; val = trim streamId in
      if key = [] \<or> val = [] then store
      else store\<lparr>msgidToStreamId := (msgidToStreamId store)(key \<mapsto> val)\<rparr>)"

definition addAckStreamForBatch :: "StreamStore \<Rightarrow> jsstring \<Rightarrow> jsstring \<Rightarrow> StreamStore" where
  "addAckStreamForBatch store batchStreamId ackStreamId =
     (let b = trim batchStreamId; a = trim ackStreamId in
      if b = [] \<or> a = [] then store
      else let list = (case batchStreamIdToAckStreamIds store b of None \<Rightarrow> [] | Some l \<Rightarrow> l)
           in store\<lparr>batchStreamIdToAckStreamIds :=
                (batchStreamIdToAckStreamIds store)(b \<mapsto> list @ [a])\<rparr>)"

definition drainAckStreamsForBatch :: "StreamStore \<Rightarrow> jsstring \<Rightarrow> StreamStore \<times> jsstring list" where
  "drainAckStreamsForBatch store batchStreamId =
     (let key = trim batchStreamId in
      if key = [] then (store, [])
      else (store\<lparr>batchStreamIdToAckStreamIds := (batchStreamIdToAckStreamIds store)(key := None)\<rparr>,
            case batchStreamIdToAckStreamIds store key of None \<Rightarrow> [] | Some l \<Rightarrow> l))"

definition updateStream ::
  "StreamStore \<Rightarrow> jsstring \<Rightarrow> (StreamState \<Rightarrow> StreamState) \<Rightarrow> int \<Rightarrow> StreamStore" where
  "updateStream store streamId mutator now =
     (case streams store streamId of
        None \<Rightarrow> store
      | Some state \<Rightarrow>
          store\<lparr>streams := (streams store)(streamId \<mapsto> (mutator state)\<lparr>updatedAt := now\<rparr>)\<rparr>)"

definition markStarted :: "StreamStore \<Rightarrow> jsstring \<Rightarrow> int \<Rightarrow> StreamStore" where
  "markStarted store streamId now = updateStream store streamId (\<lambda>s. s\<lparr>started := True\<rparr>) now"

definition markFinished :: "StreamStore \<Rightarrow> jsstring \<Rightarrow> int \<Rightarrow> StreamStore" where
  "markFinished store streamId now = updateStream store streamId (\<lambda>s. s\<lparr>finished := True\<rparr>) now"

text \<open>
  The body of both merge branches of \<open>addPendingMessage\<close>: push the content, push the
  msg-id when there is one, and replace the timer by a fresh one.
\<close>

definition merged_pending ::
  "PendingInbound \<Rightarrow> jsstring \<Rightarrow> jsstring option \<Rightarrow> int \<Rightarrow> PendingInbound" where
  "merged_pending pending msgContent msgid effectiveDebounceMs =
     pending\<lparr>contents := contents pending @ [msgContent],
             msgids := (case msgid of
                          None \<Rightarrow> msgids pending
                        | Some m \<Rightarrow> if m \<noteq> [] then msgids pending @ [m] else msgids pending),
             timeout := Some effectiveDebounceMs\<rparr>"

definition new_pending ::
  "jsstring \<Rightarrow> jsstring \<Rightarrow> jsstring \<Rightarrow> WecomWebhookTarget \<Rightarrow> WecomInboundMessage \<Rightarrow> jsstring
   \<Rightarrow> jsstring \<Rightarrow> jsstring \<Rightarrow> int \<Rightarrow> int \<Rightarrow> PendingInbound" where
  "new_pending streamId conversationKey batchKey target msg msgContent nonce timestamp now
       effectiveDebounceMs =
     \<lparr>p_streamId = streamId, p_conversationKey = conversationKey, p_batchKey = batchKey,
      p_target = target, p_msg = msg, contents = [msgContent],
      msgids = (case msg_msgid msg of None \<Rightarrow> [] | Some m \<Rightarrow> if m \<noteq> [] then [m] else []),
      p_nonce = nonce, p_timestamp = timestamp, p_createdAt = now,
      timeout = Some effectiveDebounceMs, readyToFlush = False\<rparr>"

text \<open>Whether the stream of a pending batch has started; a missing stream has not.\<close>

definition stream_started :: "StreamStore \<Rightarrow> jsstring \<Rightarrow> bool" where
  "stream_started store streamId =
     (case streams store streamId of None \<Rightarrow> False | Some s \<Rightarrow> started s)"

definition addPendingMessage ::
  "StreamStore \<Rightarrow> jsstring \<Rightarrow> WecomWebhookTarget \<Rightarrow> WecomInboundMessage \<Rightarrow> jsstring \<Rightarrow> jsstring
   \<Rightarrow> jsstring \<Rightarrow> int option \<Rightarrow> jsstring \<Rightarrow> int \<Rightarrow> StreamStore \<times> jsstring \<times> admit_status" where
  "addPendingMessage store conversationKey target msg msgContent nonce timestamp debounce
       random_hex now =
     (let effectiveDebounceMs = (case debounce of None \<Rightarrow> DEFAULT_DEBOUNCE_MS | Some d \<Rightarrow> d) in
      case conversationState store conversationKey of
        None \<Rightarrow>
          (let batchKey = conversationKey;
               (store1, streamId) =
                  createStream store (msg_msgid msg) (Some conversationKey) (Some batchKey)
                    random_hex now;
               pending = new_pending streamId conversationKey batchKey target msg msgContent
                  nonce timestamp now effectiveDebounceMs
           in (store1\<lparr>pendingInbounds := (pendingInbounds store1)(batchKey \<mapsto> pending),
                       conversationState := (conversationState store1)(conversationKey \<mapsto>
                          \<lparr>activeBatchKey = batchKey, queue = [], nextSeq = 1\<rparr>)\<rparr>,
               streamId, active_new))
      | Some state \<Rightarrow>
          (let activeIsInitial = (activeBatchKey state = conversationKey);
               activePending = pendingInbounds store (activeBatchKey state)
           in case (case activePending of
                      None \<Rightarrow> None
                    | Some ap \<Rightarrow>
                        if \<not> activeIsInitial \<and> \<not> stream_started store (p_streamId ap)
                          then Some ap else None) of
                Some ap \<Rightarrow>
                  (store\<lparr>pendingInbounds := (pendingInbounds store)(activeBatchKey state \<mapsto>
                       merged_pending ap msgContent (msg_msgid msg) effectiveDebounceMs)\<rparr>,
                   p_streamId ap, active_merged)
              | None \<Rightarrow>
                  (case (case queue state of
                           [] \<Rightarrow> None
                         | queuedBatchKey # rest \<Rightarrow>
                             if queuedBatchKey = [] then None
                             else (case pendingInbounds store queuedBatchKey of
                                     None \<Rightarrow> None
                                   | Some existingQueued \<Rightarrow> Some (queuedBatchKey, existingQueued))) of
                     Some (queuedBatchKey, existingQueued) \<Rightarrow>
                       (store\<lparr>pendingInbounds := (pendingInbounds store)(queuedBatchKey \<mapsto>
                            merged_pending existingQueued msgContent (msg_msgid msg)
                              effectiveDebounceMs)\<rparr>,
                        p_streamId existingQueued, queued_merged)
                   | None \<Rightarrow>
                       (let seq = nextSeq state;
                            batchKey = queued_key conversationKey seq;
                            state1 = state\<lparr>nextSeq := seq + 1, queue := [batchKey]\<rparr>;
                            store0 = store\<lparr>conversationState :=
                               (conversationState store)(conversationKey \<mapsto> state1)\<rparr>;
                            (store1, streamId) =
                               createStream store0 (msg_msgid msg) (Some conversationKey)
                                 (Some batchKey) random_hex now;
                            pending = new_pending streamId conversationKey batchKey target msg
                               msgContent nonce timestamp now effectiveDebounceMs
                        in (store1\<lparr>pendingInbounds :=
                              (pendingInbounds store1)(batchKey \<mapsto> pending)\<rparr>,
                            streamId, queued_new)))))"

definition flushPending :: "StreamStore \<Rightarrow> jsstring \<Rightarrow> StreamStore \<times> PendingInbound list" where
  "flushPending store pendingKey =
     (case pendingInbounds store pendingKey of
        None \<Rightarrow> (store, [])
      | Some pending \<Rightarrow>
          (store\<lparr>pendingInbounds := (pendingInbounds store)(pendingKey := None)\<rparr>,
           [pending\<lparr>timeout := None, readyToFlush := False\<rparr>]))"

definition requestFlush :: "StreamStore \<Rightarrow> jsstring \<Rightarrow> StreamStore \<times> PendingInbound list" where
  "requestFlush store batchKey =
     (case pendingInbounds store batchKey of
        None \<Rightarrow> (store, [])
      | Some pending \<Rightarrow>
          (let isActive = (case conversationState store (p_conversationKey pending) of
                             None \<Rightarrow> False
                           | Some state \<Rightarrow> activeBatchKey state = batchKey)
           in if \<not> isActive
                then (store\<lparr>pendingInbounds := (pendingInbounds store)(batchKey \<mapsto>
                         pending\<lparr>timeout := None, readyToFlush := True\<rparr>)\<rparr>, [])
              else flushPending store batchKey))"

definition onStreamFinished :: "StreamStore \<Rightarrow> jsstring \<Rightarrow> StreamStore \<times> PendingInbound list" where
  "onStreamFinished store streamId =
     (case streamIdToBatchKey store streamId of
        None \<Rightarrow> (store, [])
      | Some batchKey \<Rightarrow>
          if batchKey = [] then (store, [])
          else
            (case streams store streamId of
               None \<Rightarrow> (store, [])
             | Some state \<Rightarrow>
                 (case st_conversationKey state of
                    None \<Rightarrow> (store, [])
                  | Some conversationKey \<Rightarrow>
                      if conversationKey = [] then (store, [])
                      else
                        (case conversationState store conversationKey of
                           None \<Rightarrow> (store, [])
                         | Some conv \<Rightarrow>
                             if activeBatchKey conv \<noteq> batchKey then (store, [])
                             else
                               (case queue conv of
                                  [] \<Rightarrow>
                                    (store\<lparr>conversationState :=
                                       (conversationState store)(conversationKey := None)\<rparr>, [])
                                | next # rest \<Rightarrow>
                                    if next = []
                                      then (store\<lparr>conversationState :=
                                              (conversationState store)(conversationKey := None)\<rparr>, [])
                                    else
                                      (let store1 = store\<lparr>conversationState :=
                                             (conversationState store)(conversationKey \<mapsto>
                                                conv\<lparr>activeBatchKey := next, queue := rest\<rparr>)\<rparr>
                                       in case pendingInbounds store1 next of
                                            None \<Rightarrow> (store1, [])
                                          | Some pending \<Rightarrow>
                                              if readyToFlush pending then flushPending store1 next
                                              else (store1, [])))))))"

section \<open>Bot webhook handler\<close>

text \<open>
  The POST branch of \<open>handleWecomWebhookRequest\<close> from the parsed message on: the
  signature check, decryption and JSON parsing have succeeded. The reply is kept as the
  plaintext that \<open>buildEncryptedJsonReply\<close> encrypts and signs, with its nonce and
  timestamp; \<open>jsonOk\<close> sends it with status 200. Starting the agent is an effect in the
  returned list. \<open>msgContent\<close> is the result of \<open>buildInboundBody\<close>.
\<close>

datatype plaintext_json =
    EmptyJson
  | TextJson jsstring
  | StreamJson jsstring bool jsstring "(jsstring \<times> jsstring) list"

record encrypted_reply =
  plaintextJson :: plaintext_json
  reply_nonce :: jsstring
  reply_timestamp :: jsstring

record http_response =
  statusCode :: nat
  body :: encrypted_reply

record ActiveReplyState =
  response_url :: jsstring
  ar_proxyUrl :: "jsstring option"
  ar_createdAt :: int

record MonitorState =
  streamStore :: StreamStore
  activeReplies :: "jsstring \<rightharpoonup> ActiveReplyState"

datatype effect = StartAgentForStream jsstring

definition jsonOk :: "plaintext_json \<Rightarrow> jsstring \<Rightarrow> jsstring \<Rightarrow> http_response" where
  "jsonOk plain nonce timestamp =
     \<lparr>statusCode = 200,
      body = \<lparr>plaintextJson = plain, reply_nonce = nonce, reply_timestamp = timestamp\<rparr>\<rparr>"

definition storeActiveReply ::
  "MonitorState \<Rightarrow> jsstring \<Rightarrow> jsstring option \<Rightarrow> jsstring option \<Rightarrow> int \<Rightarrow> MonitorState" where
  "storeActiveReply ms streamId responseUrl proxy now =
     (case responseUrl of
        None \<Rightarrow> ms
      | Some u \<Rightarrow>
          let url = trim u in
          if url = [] then ms
          else ms\<lparr>activeReplies := (activeReplies ms)(streamId \<mapsto>
                  \<lparr>response_url = url, ar_proxyUrl = proxy, ar_createdAt = now\<rparr>)\<rparr>)"

text \<open>\<open>x?.trim() || fallback\<close>.\<close>

definition trimmed_or :: "jsstring option \<Rightarrow> jsstring \<Rightarrow> jsstring" where
  "trimmed_or x fallback =
     (case x of None \<Rightarrow> fallback | Some s \<Rightarrow> if trim s = [] then fallback else trim s)"

definition buildStreamPlaceholderReply :: "jsstring \<Rightarrow> jsstring option \<Rightarrow> plaintext_json" where
  "buildStreamPlaceholderReply streamId placeholderContent =
     StreamJson streamId False (trimmed_or placeholderContent (js ''1'')) []"

definition buildStreamTextPlaceholderReply :: "jsstring \<Rightarrow> jsstring \<Rightarrow> plaintext_json" where
  "buildStreamTextPlaceholderReply streamId text =
     StreamJson streamId False (trimmed_or (Some text) (js ''1'')) []"

definition buildStreamReplyFromState :: "StreamState \<Rightarrow> plaintext_json" where
  "buildStreamReplyFromState state =
     StreamJson (st_streamId state) (finished state)
       (truncateUtf8Bytes (content state) STREAM_MAX_BYTES)
       (case images state of
          None \<Rightarrow> []
        | Some imgs \<Rightarrow> if finished state then imgs else [])"

text \<open>The state that stands in for a stream the store does not know.\<close>

definition unknown_stream :: "jsstring \<Rightarrow> int \<Rightarrow> StreamState" where
  "unknown_stream streamId now =
     \<lparr>st_streamId = (if streamId = [] then js ''unknown'' else streamId), st_msgid = None,
      st_conversationKey = None, st_batchKey = None, createdAt = now, updatedAt = now,
      started = True, finished = True, content = [], images = None, fallbackMode = None\<rparr>"

definition queuedPlaceholder :: jsstring where
  "queuedPlaceholder =
     [0x5DF2, 0x6536, 0x5230, 0xFF0C, 0x5DF2, 0x6392, 0x961F, 0x5904, 0x7406, 0x4E2D,
      0x2E, 0x2E, 0x2E]"

definition mergedQueuedPlaceholder :: jsstring where
  "mergedQueuedPlaceholder =
     [0x5DF2, 0x6536, 0x5230, 0xFF0C, 0x5DF2, 0x5408, 0x5E76, 0x6392, 0x961F, 0x5904, 0x7406,
      0x4E2D, 0x2E, 0x2E, 0x2E]"

text \<open>
  \<open>toLowerCase\<close>, as far as comparing with the ASCII words \<open>event\<close>, \<open>stream\<close>,
  \<open>template_card_event\<close>, \<open>enter_chat\<close> and \<open>group\<close> goes: no code unit above 127
  lower-cases to a letter of these words.
\<close>

definition ascii_lower :: "16 word \<Rightarrow> 16 word" where
  "ascii_lower c = (if 0x41 \<le> c \<and> c \<le> 0x5A then c + 0x20 else c)"

definition lower_string :: "jsstring option \<Rightarrow> jsstring" where
  "lower_string x = (case x of None \<Rightarrow> [] | Some s \<Rightarrow> map ascii_lower s)"

definition resolveWecomSenderUserId :: "WecomInboundMessage \<Rightarrow> jsstring option" where
  "resolveWecomSenderUserId msg =
     (let direct = trimmed_or (msg_from_userid msg) [] in
      if direct \<noteq> [] then Some direct
      else let legacy = trimmed_or (msg_fromuserid msg) [] in
        if legacy \<noteq> [] then Some legacy else None)"

definition conversation_key :: "WecomWebhookTarget \<Rightarrow> WecomInboundMessage \<Rightarrow> jsstring" where
  "conversation_key target msg =
     (let userid = (case resolveWecomSenderUserId msg of None \<Rightarrow> js ''unknown'' | Some u \<Rightarrow> u);
          chatId = (if msg_chattype msg = Some (js ''group'')
                      then trimmed_or (msg_chatid msg) (js ''unknown'') else userid)
      in js ''wecom:'' @ accountId target @ js '':'' @ userid @ js '':'' @ chatId)"

definition handleBotPost ::
  "MonitorState \<Rightarrow> WecomWebhookTarget \<Rightarrow> WecomInboundMessage \<Rightarrow> jsstring \<Rightarrow> jsstring \<Rightarrow> jsstring
   \<Rightarrow> jsstring \<Rightarrow> jsstring \<Rightarrow> int \<Rightarrow> MonitorState \<times> http_response \<times> effect list" where
  "handleBotPost ms target msg msgContent nonce timestamp random_hex random_hex2 now =
     (let store = streamStore ms;
          msgtype = lower_string (msg_msgtype msg)
      in
      if msgtype = js ''event'' then
        (let eventtype = lower_string (msg_eventtype msg) in
         if eventtype = js ''template_card_event'' then
           (let msgid = (if truthy (msg_msgid msg) then msg_msgid msg else None) in
            if (case msgid of None \<Rightarrow> False | Some m \<Rightarrow> truthy (getStreamByMsgId store m))
              then (ms, jsonOk EmptyJson nonce timestamp, [])
            else
              (let (store1, streamId) = createStream store msgid None None random_hex now;
                   store2 = markStarted store1 streamId now;
                   ms1 = storeActiveReply (ms\<lparr>streamStore := store2\<rparr>) streamId
                           (msg_response_url msg) None now
               in (ms1, jsonOk EmptyJson nonce timestamp, [StartAgentForStream streamId])))
         else if eventtype = js ''enter_chat'' then
           (let welcome = trimmed_or (welcomeText target) [] in
            (ms, jsonOk (if welcome \<noteq> [] then TextJson welcome else EmptyJson) nonce timestamp, []))
         else (ms, jsonOk EmptyJson nonce timestamp, []))
      else if msgtype = js ''stream'' then
        (let streamId = trimmed_or (msg_stream_id msg) [];
             reply = (case getStream store streamId of
                        Some state \<Rightarrow> buildStreamReplyFromState state
                      | None \<Rightarrow> buildStreamReplyFromState (unknown_stream streamId now))
         in (ms, jsonOk reply nonce timestamp, []))
      else
        (let conversationKey = conversation_key target msg;
             existingStreamId = (case msg_msgid msg of
                                   None \<Rightarrow> None
                                 | Some m \<Rightarrow> if m \<noteq> [] then getStreamByMsgId store m else None)
         in
         if truthy existingStreamId then
           (ms,
            jsonOk (buildStreamPlaceholderReply (case existingStreamId of None \<Rightarrow> [] | Some e \<Rightarrow> e)
                      (streamPlaceholderContent target)) nonce timestamp,
            [])
         else
           (let (store1, streamId, status) =
                  addPendingMessage store conversationKey target msg msgContent nonce timestamp
                    (debounceMs target) random_hex now;
                ms1 = (if truthy (msg_response_url msg)
                         then storeActiveReply (ms\<lparr>streamStore := store1\<rparr>) streamId
                                (msg_response_url msg) (proxyUrl target) now
                       else ms\<lparr>streamStore := store1\<rparr>)
            in
            if status = active_new then
              (ms1, jsonOk (buildStreamPlaceholderReply streamId (streamPlaceholderContent target))
                      nonce timestamp, [])
            else if status = queued_new then
              (ms1, jsonOk (buildStreamPlaceholderReply streamId (Some queuedPlaceholder))
                      nonce timestamp, [])
            else
              (let (store2, ackStreamId) =
                     createStream (streamStore ms1)
                       (if truthy (msg_msgid msg) then msg_msgid msg else None) None None
                       random_hex2 now;
                   store3 = updateStream store2 ackStreamId
                      (\<lambda>s. s\<lparr>finished := False, started := True,
                               content := mergedQueuedPlaceholder\<rparr>) now;
                   store4 = (case msg_msgid msg of
                               None \<Rightarrow> store3
                             | Some m \<Rightarrow> if m \<noteq> [] then setStreamIdForMsgId store3 m ackStreamId
                                         else store3);
                   store5 = addAckStreamForBatch store4 streamId ackStreamId
               in (ms1\<lparr>streamStore := store5\<rparr>,
                   jsonOk (buildStreamTextPlaceholderReply ackStreamId mergedQueuedPlaceholder)
                     nonce timestamp,
                   [])))))"

text \<open>Example data: a target with default settings, a monitor with an empty store, a
  stream poll, a monitor that has seen msg-id \<open>M1\<close> on stream \<open>s1\<close>, and an inbound message.\<close>

definition stream_poll :: "string \<Rightarrow> WecomInboundMessage" where
  "stream_poll sid = \<lparr>msg_msgid = None, msg_msgtype = Some (js ''stream''), msg_chattype = None, msg_chatid = None,
     msg_response_url = None, msg_from_userid = None, msg_fromuserid = None, msg_stream_id = Some (js sid), msg_eventtype = None\<rparr>"
definition example_target :: WecomWebhookTarget where
  "example_target = \<lparr>accountId = js ''default'', streamPlaceholderContent = None, welcomeText = None, debounceMs = None, proxyUrl = None\<rparr>"
definition empty_monitor :: MonitorState where
  "empty_monitor = \<lparr>streamStore = new_store, activeReplies = Map.empty\<rparr>"

definition seen_once :: MonitorState where
  "seen_once = \<lparr>streamStore = new_store\<lparr>msgidToStreamId := [js ''M1'' \<mapsto> js ''s1'']\<rparr>,
                 activeReplies = Map.empty\<rparr>"

definition inbound :: "string \<Rightarrow> string \<Rightarrow> string \<Rightarrow> WecomInboundMessage" where
  "inbound mtype etype mid =
     \<lparr>msg_msgid = Some (js mid), msg_msgtype = Some (js mtype), msg_chattype = None,
      msg_chatid = None, msg_response_url = None, msg_from_userid = Some (js ''U''),
      msg_fromuserid = None, msg_stream_id = None, msg_eventtype = Some (js etype)\<rparr>"

text \<open>
  The conversation whose current active batch a stream belongs to, if any: the stream has
  a batch key and a conversation key, and that conversation's active batch is this batch.
\<close>

definition active_conversation_of ::
  "StreamStore \<Rightarrow> jsstring \<Rightarrow> (jsstring \<times> ConversationState) option" where
  "active_conversation_of store streamId =
     (case streamIdToBatchKey store streamId of
        None \<Rightarrow> None
      | Some batchKey \<Rightarrow>
          (case streams store streamId of
             None \<Rightarrow> None
           | Some state \<Rightarrow>
               (case st_conversationKey state of
                  None \<Rightarrow> None
                | Some conversationKey \<Rightarrow>
                    (case conversationState store conversationKey of
                       None \<Rightarrow> None
                     | Some conv \<Rightarrow>
                         if batchKey \<noteq> [] \<and> conversationKey \<noteq> [] \<and> activeBatchKey conv = batchKey
                           then Some (conversationKey, conv) else None))))"

text \<open>Example data: a text message, and a store in which the first batch of conversation
  \<open>c\<close> has been flushed and a second batch waits in the queue, its debounce over.\<close>

definition text_message :: "string \<Rightarrow> WecomInboundMessage" where
  "text_message mid = inbound ''text'' '''' mid"



section \<open>Reachable stores\<close>

text \<open>
  A stream id is what \<open>crypto.randomBytes(16).toString("hex")\<close> gives: 32 hex digits. It
  is fresh when the store has no stream of that id. A conversation key is plain when it is
  not empty and contains no \<open>#\<close>: the batch keys of plain conversations, \<open>key\<close> and
  \<open>key#q1\<close>, \<open>key#q2\<close>, ..., never coincide.
\<close>

definition is_hex_digit :: "16 word \<Rightarrow> bool" where
  "is_hex_digit c \<longleftrightarrow> (0x30 \<le> c \<and> c \<le> 0x39) \<or> (0x61 \<le> c \<and> c \<le> 0x66)"

definition is_stream_id :: "jsstring \<Rightarrow> bool" where
  "is_stream_id x \<longleftrightarrow> length x = 32 \<and> list_all is_hex_digit x"

definition fresh_stream_id :: "StreamStore \<Rightarrow> jsstring \<Rightarrow> bool" where
  "fresh_stream_id store x \<longleftrightarrow> is_stream_id x \<and> streams store x = None"

definition conv_key_ok :: "jsstring \<Rightarrow> bool" where
  "conv_key_ok c \<longleftrightarrow> c \<noteq> [] \<and> 0x23 \<notin> set c"

text \<open>
  The stores that the operations build from the empty one, for conversation keys that
  satisfy \<open>ok\<close>: admissions, timer firings, stream completions, stream updates that never
  reset \<open>started\<close> (among them \<open>markStarted\<close> and \<open>markFinished\<close>), and the bookkeeping of
  streams without a batch (ack streams, card events). Pruning is not among them.
\<close>

inductive reachable :: "(jsstring \<Rightarrow> bool) \<Rightarrow> StreamStore \<Rightarrow> bool" for ok where
  start: "reachable ok new_store"
| admit: "reachable ok store \<Longrightarrow> ok conversationKey \<Longrightarrow> fresh_stream_id store random_hex \<Longrightarrow>
     reachable ok (fst (addPendingMessage store conversationKey target msg msgContent nonce timestamp
                       debounce random_hex now))"
| timer: "reachable ok store \<Longrightarrow> reachable ok (fst (requestFlush store batchKey))"
| finish: "reachable ok store \<Longrightarrow> reachable ok (fst (onStreamFinished store streamId))"
| update: "reachable ok store \<Longrightarrow> (\<And>s. started s \<Longrightarrow> started (mutator s)) \<Longrightarrow>
     reachable ok (updateStream store streamId mutator now)"
| create: "reachable ok store \<Longrightarrow> fresh_stream_id store random_hex \<Longrightarrow>
     reachable ok (fst (createStream store msgid None None random_hex now))"
| map_msgid: "reachable ok store \<Longrightarrow> reachable ok (setStreamIdForMsgId store msgid streamId)"
| add_ack: "reachable ok store \<Longrightarrow> reachable ok (addAckStreamForBatch store batchStreamId ackStreamId)"
| drain_ack: "reachable ok store \<Longrightarrow> reachable ok (fst (drainAckStreamsForBatch store batchStreamId))"

definition any_key :: "jsstring \<Rightarrow> bool" where
  "any_key c \<longleftrightarrow> True"

text \<open>What holds of every store reachable with arbitrary conversation keys: a waiting batch
  has a stream of its own, filed under the batch's key unless that key is empty, and a
  queue holds queued batch keys of its conversation.\<close>

definition waiting_inv :: "StreamStore \<Rightarrow> bool" where
  "waiting_inv store \<longleftrightarrow>
     (\<forall>k p. pendingInbounds store k = Some p \<longrightarrow>
        is_stream_id (p_streamId p) \<and> streams store (p_streamId p) \<noteq> None \<and>
        streamIdToBatchKey store (p_streamId p) = (if k = [] then None else Some k))"

definition batch_map_inv :: "StreamStore \<Rightarrow> bool" where
  "batch_map_inv store \<longleftrightarrow>
     (\<forall>sid k. streamIdToBatchKey store sid = Some k \<longrightarrow> streams store sid \<noteq> None)"

definition queue_keys_inv :: "StreamStore \<Rightarrow> bool" where
  "queue_keys_inv store \<longleftrightarrow>
     (\<forall>c st q. conversationState store c = Some st \<longrightarrow> q \<in> set (queue st) \<longrightarrow>
        (\<exists>n. q = queued_key c n))"

definition batch_inv :: "StreamStore \<Rightarrow> bool" where
  "batch_inv store \<longleftrightarrow> waiting_inv store \<and> batch_map_inv store \<and> queue_keys_inv store"

text \<open>A queue holds at most one batch key.\<close>

definition short_queue_inv :: "StreamStore \<Rightarrow> bool" where
  "short_queue_inv store \<longleftrightarrow>
     (\<forall>c st. conversationState store c = Some st \<longrightarrow> length (queue st) \<le> 1)"

text \<open>What holds in addition when all conversation keys are plain.\<close>

definition pending_inv :: "StreamStore \<Rightarrow> bool" where
  "pending_inv store \<longleftrightarrow>
     (\<forall>k p. pendingInbounds store k = Some p \<longrightarrow>
        is_stream_id (p_streamId p) \<and> streams store (p_streamId p) \<noteq> None \<and>
        streamIdToBatchKey store (p_streamId p) = Some k)"

definition conv_shape :: "jsstring \<Rightarrow> ConversationState \<Rightarrow> bool" where
  "conv_shape c st \<longleftrightarrow>
     (activeBatchKey st = c \<or> (\<exists>m<nextSeq st. activeBatchKey st = queued_key c m)) \<and>
     (queue st = [] \<or>
      (0 < nextSeq st \<and> queue st = [queued_key c (nextSeq st - 1)] \<and>
       (activeBatchKey st = c \<or> (\<exists>m<nextSeq st - 1. activeBatchKey st = queued_key c m))))"

definition conv_inv :: "StreamStore \<Rightarrow> bool" where
  "conv_inv store \<longleftrightarrow>
     (\<forall>c st. conversationState store c = Some st \<longrightarrow> conv_key_ok c \<and> conv_shape c st)"

text \<open>The active batch can take a merge: it is a promoted batch that still waits and
  whose stream has not started.\<close>

definition active_open :: "StreamStore \<Rightarrow> jsstring \<Rightarrow> ConversationState \<Rightarrow> bool" where
  "active_open store c st \<longleftrightarrow>
     activeBatchKey st \<noteq> c \<and>
     (case pendingInbounds store (activeBatchKey st) of
        None \<Rightarrow> False
      | Some ap \<Rightarrow> \<not> stream_started store (p_streamId ap))"

definition queue_inv :: "StreamStore \<Rightarrow> bool" where
  "queue_inv store \<longleftrightarrow>
     (\<forall>c st. conversationState store c = Some st \<longrightarrow> queue st \<noteq> [] \<longrightarrow>
        pendingInbounds store (hd (queue st)) \<noteq> None \<and> \<not> active_open store c st)"

definition store_inv :: "StreamStore \<Rightarrow> bool" where
  "store_inv store \<longleftrightarrow> pending_inv store \<and> batch_map_inv store \<and> conv_inv store \<and> queue_inv store"

section \<open>Auxiliary notions for the queue invariants\<close>

text \<open>Reading decimal digits back gives the number.\<close>

definition read_digits :: "jsstring \<Rightarrow> nat" where
  "read_digits ds = foldl (\<lambda>a d. 10 * a + (unat d - 48)) 0 ds"

text \<open>The debounce delay that \<open>addPendingMessage\<close> uses.\<close>

definition debounce_of :: "int option \<Rightarrow> int" where
  "debounce_of debounce = (case debounce of None \<Rightarrow> DEFAULT_DEBOUNCE_MS | Some d \<Rightarrow> d)"

text \<open>The queued batch of a conversation, as \<open>addPendingMessage\<close> looks it up: the head
  of the queue, when it is a non-empty key with a pending entry.\<close>

definition queued_pending :: "StreamStore \<Rightarrow> ConversationState \<Rightarrow> (jsstring \<times> PendingInbound) option" where
  "queued_pending store st =
     (case queue st of
        [] \<Rightarrow> None
      | q # rest \<Rightarrow> if q = [] then None
                    else (case pendingInbounds store q of None \<Rightarrow> None | Some e \<Rightarrow> Some (q, e)))"

section \<open>Example stores\<close>

text \<open>Stream ids for the examples, 32 times the same hex digit, and the admission of a
  text message with default settings. \<open>one_batch_store\<close> holds the first batch of a
  conversation, \<open>two_batch_store\<close> a queued second one as well.\<close>

definition example_id :: "16 word \<Rightarrow> jsstring" where
  "example_id d = replicate 32 d"

definition example_admit :: "StreamStore \<Rightarrow> string \<Rightarrow> string \<Rightarrow> 16 word \<Rightarrow> StreamStore" where
  "example_admit store key mid d =
     fst (addPendingMessage store (js key) example_target (text_message mid) (js mid) (js ''n'')
            (js ''t'') None (example_id d) 0)"

definition one_batch_store :: StreamStore where
  "one_batch_store = example_admit new_store ''wecom:default:U:U'' ''M1'' 0x31"

definition two_batch_store :: StreamStore where
  "two_batch_store = example_admit one_batch_store ''wecom:default:U:U'' ''M2'' 0x32"

definition two_batch_monitor :: MonitorState where
  "two_batch_monitor = \<lparr>streamStore = two_batch_store, activeReplies = Map.empty\<rparr>"

text \<open>
  Two conversations, one with key \<open>c\<close> and one whose key \<open>c#q1\<close> is the key of the first
  queued batch of \<open>c\<close>. Conversation \<open>c\<close> receives two messages, its first batch is flushed
  and finishes, the second batch \<open>c#q1\<close> becomes active and is flushed, and a third message
  is queued as \<open>c#q2\<close>. Then conversation \<open>c#q1\<close> receives its first message, whose batch
  is stored under the key \<open>c#q1\<close>.
\<close>

definition crossed_store :: StreamStore where
  "crossed_store =
     (let s2 = example_admit (example_admit new_store ''c'' ''M1'' 0x31) ''c'' ''M2'' 0x32;
          s3 = fst (requestFlush s2 (js ''c''));
          s4 = fst (onStreamFinished s3 (example_id 0x31));
          s5 = fst (requestFlush s4 (js ''c#q1''));
          s6 = example_admit s5 ''c'' ''M3'' 0x33
      in example_admit s6 ''c#q1'' ''M4'' 0x34)"

section \<open>Access-token cache\<close>

text \<open>
  \<open>getAccessToken\<close> is asynchronous. Its synchronous part is \<open>getAccessToken_call\<close>: the
  lookup of the cache entry, the test of the cached token, the test of the stored promise,
  and the start of the refresh. The body of the refresh runs up to its first \<open>await\<close>
  before the promise it returns is stored in the entry. It builds the URL first, and
  \<open>encodeURIComponent\<close> throws a \<open>URIError\<close> on a string with an unpaired surrogate: then
  the \<open>finally\<close> block of the body has already run when the rejected promise is stored.
  The settling of a refresh whose request was sent, with the \<open>finally\<close> block, is
  \<open>refresh_settled\<close>. Times are milliseconds as \<open>Date.now()\<close> gives them, and \<open>agentId\<close>
  is a natural number.
\<close>

record ResolvedAgentAccount =
  corpId :: jsstring
  corpSecret :: jsstring
  agentId :: nat

datatype token_error = URIError | TransportError | GetTokenFailed "int option" "jsstring option"

text \<open>The promise stored in a cache entry: that of a refresh in flight, or one that was
  rejected before it was stored.\<close>

datatype promise = RefreshInFlight | Rejected token_error

record TokenCache =
  token :: jsstring
  expiresAt :: int
  refreshPromise :: "promise option"

record TokenResponse =
  access_token :: "jsstring option"
  expires_in :: "int option"
  errcode :: "int option"
  errmsg :: "jsstring option"

text \<open>What the fetch of the token endpoint gives: a thrown error, or the parsed body
  (\<open>None\<close> for a JSON \<open>null\<close>).\<close>

datatype fetch_outcome = FetchThrows | FetchJson "TokenResponse option"

datatype call_result =
    Cached jsstring
  | AwaitInFlight promise
  | RefreshStarted
  | RefreshThrew token_error

definition TOKEN_REFRESH_BUFFER_MS :: int where
  "TOKEN_REFRESH_BUFFER_MS = 60000"

definition uri_error :: "jsstring \<Rightarrow> bool" where
  "uri_error s \<longleftrightarrow> \<not> well_formed s"

definition cache_key :: "ResolvedAgentAccount \<Rightarrow> jsstring" where
  "cache_key agent = corpId agent @ js '':'' @ show_nat (agentId agent)"

definition new_cache :: TokenCache where
  "new_cache = \<lparr>token = [], expiresAt = 0, refreshPromise = None\<rparr>"

definition cache_entry :: "(jsstring \<rightharpoonup> TokenCache) \<Rightarrow> jsstring \<Rightarrow> TokenCache" where
  "cache_entry tokenCaches cacheKey =
     (case tokenCaches cacheKey of None \<Rightarrow> new_cache | Some c \<Rightarrow> c)"

definition getAccessToken_call ::
  "(jsstring \<rightharpoonup> TokenCache) \<Rightarrow> ResolvedAgentAccount \<Rightarrow> int
   \<Rightarrow> (jsstring \<rightharpoonup> TokenCache) \<times> call_result" where
  "getAccessToken_call tokenCaches agent now =
     (let cacheKey = cache_key agent;
          cache = cache_entry tokenCaches cacheKey;
          caches1 = tokenCaches(cacheKey \<mapsto> cache)
      in if token cache \<noteq> [] \<and> expiresAt cache > now + TOKEN_REFRESH_BUFFER_MS
           then (caches1, Cached (token cache))
         else
           (case refreshPromise cache of
              Some p \<Rightarrow> (caches1, AwaitInFlight p)
            | None \<Rightarrow>
                if uri_error (corpId agent) \<or> uri_error (corpSecret agent)
                  then (caches1(cacheKey \<mapsto> cache\<lparr>refreshPromise := Some (Rejected URIError)\<rparr>),
                        RefreshThrew URIError)
                else (caches1(cacheKey \<mapsto> cache\<lparr>refreshPromise := Some RefreshInFlight\<rparr>),
                      RefreshStarted)))"

definition refresh_settled ::
  "(jsstring \<rightharpoonup> TokenCache) \<Rightarrow> jsstring \<Rightarrow> fetch_outcome \<Rightarrow> int \<Rightarrow>
   (jsstring \<rightharpoonup> TokenCache) \<times> (token_error + jsstring)" where
  "refresh_settled tokenCaches cacheKey outcome now =
     (let cache = cache_entry tokenCaches cacheKey in
      case outcome of
        FetchThrows \<Rightarrow> (tokenCaches(cacheKey \<mapsto> cache\<lparr>refreshPromise := None\<rparr>), Inl TransportError)
      | FetchJson None \<Rightarrow>
          (tokenCaches(cacheKey \<mapsto> cache\<lparr>refreshPromise := None\<rparr>), Inl (GetTokenFailed None None))
      | FetchJson (Some json) \<Rightarrow>
          (case access_token json of
             None \<Rightarrow> (tokenCaches(cacheKey \<mapsto> cache\<lparr>refreshPromise := None\<rparr>),
                      Inl (GetTokenFailed (errcode json) (errmsg json)))
           | Some tok \<Rightarrow>
               if tok = []
                 then (tokenCaches(cacheKey \<mapsto> cache\<lparr>refreshPromise := None\<rparr>),
                       Inl (GetTokenFailed (errcode json) (errmsg json)))
               else (tokenCaches(cacheKey \<mapsto> cache\<lparr>token := tok,
                        expiresAt := now + (case expires_in json of None \<Rightarrow> 7200 | Some e \<Rightarrow> e) * 1000,
                        refreshPromise := None\<rparr>),
                     Inr tok)))"

text \<open>
  One call run to completion: the caches after it, what the returned promise settles to,
  and whether this call fetched the token endpoint. \<open>now\<close> is the time of the call,
  \<open>outcome\<close> and \<open>now'\<close> the result and time of the refresh it starts or joins. A call that
  finds a rejected promise in the entry gets that promise.
\<close>

definition getAccessToken ::
  "(jsstring \<rightharpoonup> TokenCache) \<Rightarrow> ResolvedAgentAccount \<Rightarrow> int \<Rightarrow> fetch_outcome \<Rightarrow> int \<Rightarrow>
   (jsstring \<rightharpoonup> TokenCache) \<times> (token_error + jsstring) \<times> bool" where
  "getAccessToken tokenCaches agent now outcome now' =
     (case getAccessToken_call tokenCaches agent now of
        (caches1, Cached tok) \<Rightarrow> (caches1, Inr tok, False)
      | (caches1, AwaitInFlight RefreshInFlight) \<Rightarrow>
          (let (caches2, r) = refresh_settled caches1 (cache_key agent) outcome now'
           in (caches2, r, False))
      | (caches1, AwaitInFlight (Rejected e)) \<Rightarrow> (caches1, Inl e, False)
      | (caches1, RefreshStarted) \<Rightarrow>
          (let (caches2, r) = refresh_settled caches1 (cache_key agent) outcome now'
           in (caches2, r, True))
      | (caches1, RefreshThrew e) \<Rightarrow> (caches1, Inl e, False))"

text \<open>Example accounts: one with plain fields, and one whose corp id is the unpaired
  surrogate U+D800.\<close>

definition plain_agent :: ResolvedAgentAccount where
  "plain_agent = \<lparr>corpId = js ''corp'', corpSecret = js ''secret'', agentId = 1\<rparr>"

definition surrogate_agent :: ResolvedAgentAccount where
  "surrogate_agent = \<lparr>corpId = [0xD800], corpSecret = js ''secret'', agentId = 1\<rparr>"

section \<open>Text accumulation of the deliver callback\<close>

text \<open>
  The end of the \<open>deliver\<close> callback, once the text of the block is final: nothing is done
  in fallback mode; otherwise the text is appended to the content of the stream after an
  empty line, trimmed, truncated to \<open>STREAM_MAX_BYTES\<close> and stored. \<open>current\<close> is the
  state object of the stream, the one that \<open>updateStream\<close> mutates.
\<close>

definition deliver_text :: "StreamStore \<Rightarrow> jsstring \<Rightarrow> jsstring \<Rightarrow> int \<Rightarrow> StreamStore" where
  "deliver_text store streamId text now =
     (case getStream store streamId of
        None \<Rightarrow> store
      | Some current \<Rightarrow>
          if fallbackMode current \<noteq> None then store
          else
            (let nextText = (if content current \<noteq> []
                               then trim (content current @ [0x0A, 0x0A] @ text)
                             else trim text)
             in updateStream store streamId
                  (\<lambda>s. s\<lparr>content := truncateUtf8Bytes nextText STREAM_MAX_BYTES,
                          images := (case images current of
                                       None \<Rightarrow> images s
                                     | Some imgs \<Rightarrow> if imgs \<noteq> [] then images current else images s)\<rparr>)
                  now))"

text \<open>Example data: the euro sign followed by \<open>n\<close> letters \<open>a\<close>, which is \<open>n + 3\<close> bytes of
  UTF-8, and a store with one stream that has no content yet.\<close>

definition euro_text :: "nat \<Rightarrow> jsstring" where
  "euro_text n = 0x20AC # replicate n 0x61"

definition empty_stream_store :: StreamStore where
  "empty_stream_store = fst (createStream new_store None None None (example_id 0x31) 0)"

section \<open>Properties of the target resolver\<close>

lemma fields_set_single:
  "fields_set (no_target\<lparr>toparty := Some x\<rparr>) = [ToParty]"
  "fields_set (no_target\<lparr>touser := Some x\<rparr>) = [ToUser]"
  "fields_set (no_target\<lparr>totag := Some x\<rparr>) = [ToTag]"
  "fields_set (no_target\<lparr>chatid := Some x\<rparr>) = [ChatId]"
  by (simp_all add: fields_set_def no_target_def)

text \<open>The explicit prefixes differ in their first letter, so at most one of them matches.\<close>

lemma explicit_exclusive:
  "starts_with_i (js ''party:'') s \<Longrightarrow>
     \<not> starts_with_i (js ''dept:'') s \<and> \<not> starts_with_i (js ''tag:'') s \<and>
     \<not> starts_with_i (js ''group:'') s \<and> \<not> starts_with_i (js ''chat:'') s \<and>
     \<not> starts_with_i (js ''user:'') s"
  "starts_with_i (js ''dept:'') s \<Longrightarrow>
     \<not> starts_with_i (js ''tag:'') s \<and> \<not> starts_with_i (js ''group:'') s \<and>
     \<not> starts_with_i (js ''chat:'') s \<and> \<not> starts_with_i (js ''user:'') s"
  "starts_with_i (js ''tag:'') s \<Longrightarrow>
     \<not> starts_with_i (js ''group:'') s \<and> \<not> starts_with_i (js ''chat:'') s \<and>
     \<not> starts_with_i (js ''user:'') s"
  "starts_with_i (js ''group:'') s \<Longrightarrow>
     \<not> starts_with_i (js ''chat:'') s \<and> \<not> starts_with_i (js ''user:'') s"
  "starts_with_i (js ''chat:'') s \<Longrightarrow> \<not> starts_with_i (js ''user:'') s"
  by (cases s; simp add: js_def ascii_upper_def split: if_splits)+

text \<open>
  Claim C8, as the code has it. For every input that is not blank (not empty after
  \<open>trim\<close>), \<open>resolveWecomTarget\<close> returns a target with exactly one of the four fields
  set. With \<open>clean\<close> the trimmed input less one leading namespace prefix: the explicit
  prefixes \<open>party:\<close>/\<open>dept:\<close> give a department, \<open>tag:\<close> a tag, \<open>group:\<close>/\<open>chat:\<close> a
  chat and \<open>user:\<close> a user, each with the trimmed rest as id; without an explicit prefix,
  a \<open>clean\<close> starting with \<open>wr\<close> or \<open>wc\<close> in any letter case is a chat, an all-digits one
  a department, and anything else a user, each with \<open>clean\<close> itself as id.
\<close>

theorem resolveWecomTarget_rules:
  assumes "trim raw \<noteq> []"
  shows "\<exists>t. resolveWecomTarget raw = Some t \<and> length (fields_set t) = 1 \<and>
    (let clean = strip_namespace (trim raw) in
      (starts_with_i (js ''party:'') clean \<longrightarrow>
         t = no_target\<lparr>toparty := Some (trim (drop 6 clean))\<rparr>) \<and>
      (starts_with_i (js ''dept:'') clean \<longrightarrow>
         t = no_target\<lparr>toparty := Some (trim (drop 5 clean))\<rparr>) \<and>
      (starts_with_i (js ''tag:'') clean \<longrightarrow>
         t = no_target\<lparr>totag := Some (trim (drop 4 clean))\<rparr>) \<and>
      (starts_with_i (js ''group:'') clean \<longrightarrow>
         t = no_target\<lparr>chatid := Some (trim (drop 6 clean))\<rparr>) \<and>
      (starts_with_i (js ''chat:'') clean \<longrightarrow>
         t = no_target\<lparr>chatid := Some (trim (drop 5 clean))\<rparr>) \<and>
      (starts_with_i (js ''user:'') clean \<longrightarrow>
         t = no_target\<lparr>touser := Some (trim (drop 5 clean))\<rparr>) \<and>
      (\<not> explicit_prefix clean \<longrightarrow>
         (if starts_with_i (js ''wr'') clean \<or> starts_with_i (js ''wc'') clean
            then t = no_target\<lparr>chatid := Some clean\<rparr>
          else if clean \<noteq> [] \<and> list_all is_digit clean
            then t = no_target\<lparr>toparty := Some clean\<rparr>
          else t = no_target\<lparr>touser := Some clean\<rparr>)))"
proof -
  define clean where "clean = strip_namespace (trim raw)"
  note ex = explicit_exclusive [of clean]
  have len: "length (js ''party:'') = 6" "length (js ''dept:'') = 5" "length (js ''tag:'') = 4"
      "length (js ''group:'') = 6" "length (js ''chat:'') = 5" "length (js ''user:'') = 5"
    by (simp_all add: js_def)
  show ?thesis
    using assms ex
    unfolding resolveWecomTarget_def Let_def clean_def [symmetric] explicit_prefix_def
      remove_prefix_i_def
    by (auto simp: fields_set_single len)
qed

theorem resolveWecomTarget_rules_witness:
  "trim (js '' WeCom:DEPT: 12 '') \<noteq> [] \<and>
   resolveWecomTarget (js '' WeCom:DEPT: 12 '') = Some (no_target\<lparr>toparty := Some (js ''12'')\<rparr>)"
  using resolveWecomTarget_rules [of "js '' WeCom:DEPT: 12 ''"]
  by (simp add: js_def trim_def js_whitespace_def strip_namespace_def ascii_upper_def Let_def)

text \<open>
  The claim as worded fails on a non-empty input of blanks, which resolves to no target
  at all, and on an upper-case \<open>WR\<close> remainder, which does not start with \<open>wr\<close> or \<open>wc\<close>
  and is not all digits, yet resolves to a chat rather than a user.
\<close>

theorem resolveWecomTarget_counterexample:
  "js '' '' \<noteq> [] \<and> resolveWecomTarget (js '' '') = None \<and>
   take 2 (js ''WR1'') \<noteq> js ''wr'' \<and> take 2 (js ''WR1'') \<noteq> js ''wc'' \<and>
   resolveWecomTarget (js ''WR1'') = Some (no_target\<lparr>chatid := Some (js ''WR1'')\<rparr>)"
  by (simp add: resolveWecomTarget_def js_def trim_def js_whitespace_def strip_namespace_def
        ascii_upper_def)

section \<open>Properties of the UTF-8 conversion\<close>

lemma split3: "(c::nat) = 4096 * (c div 4096) + 64 * (c div 64 mod 64) + c mod 64"
proof -
  define d where "d = c div 64"
  define r0 where "r0 = c mod 64"
  define e where "e = d div 64"
  define r1 where "r1 = d mod 64"
  have 1: "c = 64 * d + r0" by (simp add: d_def r0_def)
  have 2: "d = 64 * e + r1" by (simp add: e_def r1_def)
  have 3: "c div 4096 = e"
    unfolding e_def d_def by (simp add: div_mult2_eq [symmetric])
  have "c = 4096 * e + 64 * r1 + r0"
    using 1 2 by linarith
  then show ?thesis
    unfolding 3 by (simp add: r1_def d_def r0_def)
qed

lemma split4:
  "(c::nat) = 262144 * (c div 262144) + 4096 * (c div 4096 mod 64) + 64 * (c div 64 mod 64) + c mod 64"
proof -
  define d where "d = c div 4096"
  define e where "e = d div 64"
  define r2 where "r2 = d mod 64"
  define rest where "rest = 64 * (c div 64 mod 64) + c mod 64"
  have 1: "c = 4096 * d + rest"
    unfolding d_def rest_def using split3 [of c] by linarith
  have 2: "d = 64 * e + r2" by (simp add: e_def r2_def)
  have 3: "c div 262144 = e"
    unfolding e_def d_def by (simp add: div_mult2_eq [symmetric])
  have "c = 262144 * e + 4096 * r2 + rest"
    using 1 2 by linarith
  then show ?thesis
    unfolding 3 by (simp add: r2_def d_def rest_def)
qed

lemma second3:
  assumes "0x800 \<le> c" "c < 0x10000" "\<not> is_surrogate c"
  shows "second_byte_ok (0xE0 + c div 4096) (0x80 + c div 64 mod 64)"
proof -
  define q where "q = c div 4096"
  define r1 where "r1 = c div 64 mod 64"
  define r where "r = c mod 64"
  have c: "c = 4096 * q + 64 * r1 + r" unfolding q_def r1_def r_def by (rule split3)
  have b: "r1 < 64" "r < 64" by (simp_all add: r1_def r_def)
  have "second_byte_ok (0xE0 + q) (0x80 + r1)"
    using assms b c unfolding second_byte_ok_def is_surrogate_def by auto
  then show ?thesis by (simp add: q_def r1_def)
qed

lemma second4:
  assumes "0x10000 \<le> c" "c < 0x110000"
  shows "second_byte_ok (0xF0 + c div 262144) (0x80 + c div 4096 mod 64)"
proof -
  define q where "q = c div 262144"
  define r2 where "r2 = c div 4096 mod 64"
  define r1 where "r1 = c div 64 mod 64"
  define r where "r = c mod 64"
  have c: "c = 262144 * q + 4096 * r2 + 64 * r1 + r" unfolding q_def r2_def r1_def r_def by (rule split4)
  have b: "r2 < 64" "r1 < 64" "r < 64" by (simp_all add: r2_def r1_def r_def)
  have "second_byte_ok (0xF0 + q) (0x80 + r2)"
    using assms b c unfolding second_byte_ok_def by auto
  then show ?thesis by (simp add: q_def r2_def)
qed


lemma dec1: "b < 0x80 \<Longrightarrow> utf8_code_points (b # bs) = b # utf8_code_points bs"
  by simp

lemma dec2:
  "0xC2 \<le> b \<Longrightarrow> b \<le> 0xDF \<Longrightarrow> is_continuation b1 \<Longrightarrow>
   utf8_code_points (b # b1 # r) = ((b - 0xC0) * 64 + (b1 - 0x80)) # utf8_code_points r"
  by simp

lemma dec3:
  "0xE0 \<le> b \<Longrightarrow> b \<le> 0xEF \<Longrightarrow> second_byte_ok b b1 \<Longrightarrow> is_continuation b2 \<Longrightarrow>
   utf8_code_points (b # b1 # b2 # r) =
     ((b - 0xE0) * 4096 + (b1 - 0x80) * 64 + (b2 - 0x80)) # utf8_code_points r"
  by simp

lemma dec4:
  "0xF0 \<le> b \<Longrightarrow> b \<le> 0xF4 \<Longrightarrow> second_byte_ok b b1 \<Longrightarrow> is_continuation b2 \<Longrightarrow>
   is_continuation b3 \<Longrightarrow>
   utf8_code_points (b # b1 # b2 # b3 # r) =
     ((b - 0xF0) * 262144 + (b1 - 0x80) * 4096 + (b2 - 0x80) * 64 + (b3 - 0x80))
       # utf8_code_points r"
  by simp

lemma cont_mod: "is_continuation (0x80 + x mod 64)"
  by (simp add: is_continuation_def)

lemma decode_one:
  assumes "is_scalar c"
  shows "utf8_code_points (utf8_bytes_of c @ r) = c # utf8_code_points r"
proof -
  consider "c < 0x80" | "0x80 \<le> c" "c < 0x800" | "0x800 \<le> c" "c < 0x10000" | "0x10000 \<le> c"
    by linarith
  then show ?thesis
  proof cases
    case 1
    then show ?thesis by (simp add: utf8_bytes_of_def)
  next
    case 2
    have c: "c = 64 * (c div 64) + c mod 64" by simp
    have lead: "0xC2 \<le> 0xC0 + c div 64" "0xC0 + c div 64 \<le> 0xDF"
      using 2 c by linarith+
    have "utf8_code_points ((0xC0 + c div 64) # (0x80 + c mod 64) # r) = c # utf8_code_points r"
      by (subst dec2 [OF lead cont_mod]) simp
    with 2 show ?thesis by (simp add: utf8_bytes_of_def)
  next
    case 3
    have ns: "\<not> is_surrogate c" using assms by (simp add: is_scalar_def)
    note c = split3 [of c]
    have lead: "0xE0 \<le> 0xE0 + c div 4096" "0xE0 + c div 4096 \<le> 0xEF"
      using 3 c by linarith+
    have "utf8_code_points ((0xE0 + c div 4096) # (0x80 + c div 64 mod 64) # (0x80 + c mod 64) # r)
        = c # utf8_code_points r"
      using c by (subst dec3 [OF lead second3 [OF 3 ns] cont_mod]) simp
    with 3 ns show ?thesis by (simp add: utf8_bytes_of_def)
  next
    case 4
    have lt: "c < 0x110000" using assms by (simp add: is_scalar_def)
    note c = split4 [of c]
    have lead: "0xF0 \<le> 0xF0 + c div 262144" "0xF0 + c div 262144 \<le> 0xF4"
      using 4 lt c by linarith+
    have "utf8_code_points ((0xF0 + c div 262144) # (0x80 + c div 4096 mod 64) #
            (0x80 + c div 64 mod 64) # (0x80 + c mod 64) # r)
        = c # utf8_code_points r"
      using c by (subst dec4 [OF lead second4 [OF 4 lt] cont_mod cont_mod]) simp
    with 4 show ?thesis by (simp add: utf8_bytes_of_def)
  qed
qed

lemma decode_all:
  "list_all is_scalar cs \<Longrightarrow> utf8_code_points (concat (map utf8_bytes_of cs)) = cs"
  by (induction cs) (simp_all add: decode_one del: utf8_code_points.simps(2))


lemma pair_value:
  assumes "is_high_surrogate u" "is_low_surrogate v"
  shows "utf16_units_of (0x10000 + (u - 0xD800) * 0x400 + (v - 0xDC00)) = [u, v]"
    and "0x10000 + (u - 0xD800) * 0x400 + (v - 0xDC00) < 0x110000"
    and "\<not> is_surrogate (0x10000 + (u - 0xD800) * 0x400 + (v - 0xDC00))"
proof -
  define a where "a = u - 0xD800"
  define b where "b = v - 0xDC00"
  have ab: "a < 0x400" "b < 0x400" "u = 0xD800 + a" "v = 0xDC00 + b"
    using assms by (auto simp: a_def b_def is_high_surrogate_def is_low_surrogate_def)
  have "(a * 0x400 + b) div 0x400 = a" "(a * 0x400 + b) mod 0x400 = b"
    using ab(2) by simp_all
  then show "utf16_units_of (0x10000 + (u - 0xD800) * 0x400 + (v - 0xDC00)) = [u, v]"
    unfolding a_def [symmetric] b_def [symmetric] utf16_units_of_def
    by (simp add: ab(3,4) add.assoc)
  show "0x10000 + (u - 0xD800) * 0x400 + (v - 0xDC00) < 0x110000"
    unfolding a_def [symmetric] b_def [symmetric] using ab(1,2) by linarith
  show "\<not> is_surrogate (0x10000 + (u - 0xD800) * 0x400 + (v - 0xDC00))"
    by (simp add: is_surrogate_def)
qed

lemma units_of_code_points:
  "list_all (\<lambda>u. u < 0x10000) us \<Longrightarrow> concat (map utf16_units_of (code_points us)) = us"
proof (induction us rule: code_points.induct)
  case (1 u v r)
  show ?case
  proof (cases "is_high_surrogate u \<and> is_low_surrogate v")
    case True
    with 1 show ?thesis by (simp add: pair_value(1))
  next
    case False
    then have "code_points (u # v # r) = u # code_points (v # r)"
      by auto
    moreover have "utf16_units_of u = [u]"
      using 1(3) by (simp add: utf16_units_of_def)
    ultimately show ?thesis
      using 1(2) [OF False] 1(3) by simp
  qed
qed (simp_all add: utf16_units_of_def)

lemma code_points_bound:
  "list_all (\<lambda>u. u < 0x10000) us \<Longrightarrow> list_all (\<lambda>c. c < 0x110000) (code_points us)"
proof (induction us rule: code_points.induct)
  case (1 u v r)
  then show ?case by (auto simp: pair_value(2))
qed simp_all

lemma units_of_word: "list_all (\<lambda>u. u < 0x10000) (map unat (s :: jsstring))"
proof -
  have "unat (x :: 16 word) < 0x10000" for x
    using unsigned_less [of x, where 'a=nat] by simp
  then show ?thesis by (simp add: list_all_iff)
qed

lemma bytes_to_words:
  assumes "list_all (\<lambda>b. b < 256) bs"
  shows "map unat (map of_nat bs :: buffer) = bs"
proof -
  have "unat (of_nat b :: 8 word) = b" if "b < 256" for b
    using that by (simp add: unat_of_nat)
  with assms show ?thesis
    by (induction bs) simp_all
qed

lemma utf8_bytes_of_bound: "c < 0x110000 \<Longrightarrow> list_all (\<lambda>b. b < 256) (utf8_bytes_of c)"
proof -
  assume lt: "c < 0x110000"
  have "c div 64 < 32" if "c < 0x800" using that by simp
  moreover have "c div 4096 < 16" if "c < 0x10000" using that by simp
  moreover have "c div 262144 < 8" using lt by simp
  ultimately show ?thesis
    by (auto simp: utf8_bytes_of_def)
qed

lemma encoded_bytes_bound:
  "list_all (\<lambda>c. c < 0x110000) cs \<Longrightarrow> list_all (\<lambda>b. b < 256) (concat (map utf8_bytes_of cs))"
  by (induction cs) (simp_all add: utf8_bytes_of_bound)

lemma utf8_code_points_encode:
  "map unat (utf8_encode s) = concat (map utf8_bytes_of (code_points (map unat s)))"
  unfolding utf8_encode_def
  by (intro bytes_to_words encoded_bytes_bound code_points_bound units_of_word)

lemma utf8_round_trip:
  assumes "well_formed s"
  shows "utf8_decode (utf8_encode s) = s"
proof -
  define cs where "cs = code_points (map unat s)"
  have "list_all (\<lambda>c. c < 0x110000) cs"
    unfolding cs_def by (intro code_points_bound units_of_word)
  moreover have "list_all (\<lambda>c. \<not> is_surrogate c) cs"
    using assms by (simp add: well_formed_def cs_def)
  ultimately have "list_all is_scalar cs"
    by (simp add: list_all_iff is_scalar_def)
  then have "utf8_code_points (map unat (utf8_encode s)) = cs"
    unfolding utf8_code_points_encode cs_def [symmetric] by (rule decode_all)
  then have "utf8_decode (utf8_encode s) = map of_nat (concat (map utf16_units_of cs))"
    by (simp add: utf8_decode_def)
  also have "\<dots> = map of_nat (map unat s)"
    unfolding cs_def by (simp add: units_of_code_points units_of_word)
  also have "\<dots> = s"
    by (simp add: comp_def)
  finally show ?thesis .
qed

section \<open>Properties of the envelope codec\<close>

lemma pad_amount:
  "pkcs7Pad buf 32 = buf @ replicate (32 - length buf mod 32) (of_nat (32 - length buf mod 32))"
  by (simp add: pkcs7Pad_def Let_def)

lemma pkcs7Pad_length: "length (pkcs7Pad buf 32) = length buf + (32 - length buf mod 32)"
  by (simp add: pad_amount)

lemma pkcs7Pad_whole_blocks: "length (pkcs7Pad buf 32) mod 32 = 0"
proof -
  have "length buf + (32 - length buf mod 32) = 32 * (length buf div 32) + 32"
    using mod_less_divisor [of 32 "length buf"] mult_div_mod_eq [of 32 "length buf"]
    by linarith
  then show ?thesis by (simp add: pkcs7Pad_length)
qed

lemma pkcs7_round_trip: "pkcs7Unpad (pkcs7Pad buf 32) 32 = Inr buf"
proof -
  define p where "p = 32 - length buf mod 32"
  have p: "1 \<le> p" "p \<le> 32"
    using mod_less_divisor [of 32 "length buf"] by (simp_all add: p_def)
  have padded: "pkcs7Pad buf 32 = buf @ replicate p (of_nat p)"
    by (simp add: pad_amount p_def)
  have up: "unat (of_nat p :: 8 word) = p"
    using p by (simp add: unat_of_nat)
  have nth: "(buf @ replicate p (of_nat p :: 8 word)) ! (length buf + p - Suc i) = of_nat p"
    if "i < p" for i
  proof -
    have "length buf + p - Suc i = length buf + (p - Suc i)" "p - Suc i < p"
      using that by simp_all
    then show ?thesis
      by (simp only: nth_append_length_plus nth_replicate)
  qed
  have all: "list_all (\<lambda>i. unat ((buf @ replicate p (of_nat p :: 8 word)) ! (length buf + p - Suc i)) = p) [0..<p]"
    unfolding list_all_iff by (auto simp: nth up)
  have last: "(buf @ replicate p (of_nat p :: 8 word)) ! (length buf + p - Suc 0) = of_nat p"
    using nth [of 0] p by simp
  show ?thesis
    unfolding padded pkcs7Unpad_def Let_def
    using p all by (simp add: last up)
qed

lemma uint32_round_trip:
  assumes "n < 2 ^ 32"
  shows "\<exists>bs. writeUInt32BE n = Inr bs \<and> length bs = 4 \<and> readUInt32BE (pre @ bs @ post) (length pre) = n"
proof -
  define b3 where "b3 = n mod 256"
  define b2 where "b2 = n div 256 mod 256"
  define b1 where "b1 = n div 65536 mod 256"
  define b0 where "b0 = n div 16777216"
  have "n div 16777216 < 256" using assms by simp
  then have b0: "b0 mod 256 = b0" by (simp add: b0_def)
  have n: "n = b0 * 16777216 + b1 * 65536 + b2 * 256 + b3"
  proof -
    have 1: "n = 256 * (n div 256) + b3" by (simp add: b3_def)
    have 2: "n div 256 = 256 * (n div 256 div 256) + b2" by (simp add: b2_def)
    have 3: "n div 256 div 256 = 256 * (n div 256 div 256 div 256) + n div 256 div 256 mod 256" by simp
    have e1: "n div 256 div 256 = n div 65536" by (simp add: div_mult2_eq [symmetric])
    have e2: "n div 65536 div 256 = n div 16777216" by (simp add: div_mult2_eq [symmetric])
    have "n div 65536 = 256 * b0 + b1"
      using 3 unfolding e1 e2 by (simp add: b0_def b1_def)
    with 1 2 e1 show ?thesis by linarith
  qed
  have u: "unat (of_nat x :: 8 word) = x mod 256" for x
    by (simp add: unat_of_nat)
  have m: "n div 65536 mod 256 = b1" "n div 256 mod 256 = b2" "n mod 256 = b3"
    by (simp_all add: b1_def b2_def b3_def)
  have "readUInt32BE (pre @ [of_nat (n div 2 ^ 24), of_nat (n div 2 ^ 16), of_nat (n div 2 ^ 8), of_nat n] @ post)
          (length pre) = b0 * 16777216 + b1 * 65536 + b2 * 256 + b3"
    by (simp add: readUInt32BE_def nth_append u m b0 b0_def [symmetric])
  then show ?thesis
    using assms n by (simp add: writeUInt32BE_def)
qed

lemma decodeEncodingAESKey_valid:
  assumes "trim encodingAESKey \<noteq> []"
    and "length (base64_decode lib (withPadding (trim encodingAESKey))) = 32"
  shows "decodeEncodingAESKey lib encodingAESKey = Inr (base64_decode lib (withPadding (trim encodingAESKey)))"
  using assms by (simp add: decodeEncodingAESKey_def Let_def)

lemma whole_blocks_16: "length (pkcs7Pad buf 32) mod 16 = 0"
proof -
  have "length (pkcs7Pad buf 32) mod 32 mod 16 = length (pkcs7Pad buf 32) mod 16"
    by (rule mod_mod_cancel) simp
  then show ?thesis by (simp add: pkcs7Pad_whole_blocks)
qed

text \<open>
  What a round trip gives for any plaintext: the plaintext after one UTF-8 encoding and
  decoding. The receiver id must itself survive that conversion, or be empty.
\<close>

lemma envelope_decrypt_encrypt:
  assumes lib: "lib_round_trips lib"
    and key: "trim encodingAESKey \<noteq> []"
      "length (base64_decode lib (withPadding (trim encodingAESKey))) = 32"
    and rnd: "length random16 = 16"
    and P: "length (utf8_encode plaintext) < 2 ^ 32"
    and R: "utf8_decode (utf8_encode (case receiveId of None \<Rightarrow> [] | Some r \<Rightarrow> r))
              = (case receiveId of None \<Rightarrow> [] | Some r \<Rightarrow> r)"
  shows "\<exists>c. encryptWecomPlaintext lib encodingAESKey receiveId plaintext random16 = Inr c \<and>
     decryptWecomEncrypted lib encodingAESKey receiveId c = Inr (utf8_decode (utf8_encode plaintext)) \<and>
     (let n = 20 + length (utf8_encode plaintext)
                + length (utf8_encode (case receiveId of None \<Rightarrow> [] | Some r \<Rightarrow> r))
      in n mod 32 = 0 \<longrightarrow> length (base64_decode lib c) = n + 32)"
proof -
  define aesKey where "aesKey = base64_decode lib (withPadding (trim encodingAESKey))"
  define iv where "iv = take 16 aesKey"
  define rid where "rid = (case receiveId of None \<Rightarrow> [] | Some r \<Rightarrow> r)"
  define msg where "msg = utf8_encode plaintext"
  have k: "decodeEncodingAESKey lib encodingAESKey = Inr aesKey"
    unfolding aesKey_def using key by (rule decodeEncodingAESKey_valid)
  obtain lenb where lenb: "writeUInt32BE (length msg) = Inr lenb" "length lenb = 4"
      "readUInt32BE (random16 @ lenb @ (msg @ utf8_encode rid)) (length random16) = length msg"
    using uint32_round_trip [of "length msg" random16 "msg @ utf8_encode rid"] P
    by (auto simp: msg_def)
  define raw where "raw = random16 @ lenb @ msg @ utf8_encode rid"
  define padded where "padded = pkcs7Pad raw 32"
  define c where "c = base64_encode lib (aes_256_cbc_encrypt lib aesKey iv padded)"
  have enc: "encryptWecomPlaintext lib encodingAESKey receiveId plaintext random16 = Inr c"
    by (simp add: encryptWecomPlaintext_def k Let_def lenb(1) msg_def [symmetric] rid_def [symmetric]
          raw_def [symmetric] WECOM_PKCS7_BLOCK_SIZE_def padded_def [symmetric] iv_def [symmetric] c_def)
  have blocks: "length padded mod 16 = 0"
    unfolding padded_def by (rule whole_blocks_16)
  have b64: "base64_decode lib c = aes_256_cbc_encrypt lib aesKey iv padded"
    using lib by (simp add: lib_round_trips_def c_def)
  have aes: "aes_256_cbc_decrypt lib aesKey iv (aes_256_cbc_encrypt lib aesKey iv padded) = padded"
      "length (aes_256_cbc_encrypt lib aesKey iv padded) = length padded"
    using lib blocks by (simp_all add: lib_round_trips_def)
  have unpad: "pkcs7Unpad padded 32 = Inr raw"
    unfolding padded_def by (rule pkcs7_round_trip)
  have len_raw: "length raw = 20 + length msg + length (utf8_encode rid)"
    by (simp add: raw_def rnd lenb(2))
  have rd: "readUInt32BE raw 16 = length msg"
    using lenb(3) by (simp add: raw_def rnd)
  have body: "take (length msg) (drop 20 raw) = msg" "drop (20 + length msg) raw = utf8_encode rid"
    by (simp_all add: raw_def rnd lenb(2))
  have trailing: "utf8_decode (utf8_encode rid) = rid"
    using R by (simp add: rid_def)
  have dec: "decryptWecomEncrypted lib encodingAESKey receiveId c = Inr (utf8_decode msg)"
    by (simp add: decryptWecomEncrypted_def k Let_def iv_def [symmetric] b64 aes blocks
          WECOM_PKCS7_BLOCK_SIZE_def unpad len_raw rd body trailing rid_def [symmetric])
  have whole: "length (base64_decode lib c) = length raw + 32" if "length raw mod 32 = 0"
    using that aes(2) by (simp add: b64 padded_def pkcs7Pad_length)
  show ?thesis
    using enc dec whole
    by (simp add: Let_def len_raw msg_def rid_def)
qed

lemma stand_in_round_trips: "lib_round_trips stand_in_lib"
  by (simp add: lib_round_trips_def stand_in_lib_def comp_def ucast_up_ucast_id is_up)

text \<open>
  Claim C6, as the code has it. For every plaintext \<open>P\<close> and receiver id \<open>R\<close> without
  unpaired surrogates, with the UTF-8 encoding of \<open>P\<close> shorter than 2^32 bytes, and every
  \<open>encodingAESKey\<close> that is not blank and whose base64 decoding (after appending \<open>=\<close> when
  missing) has exactly 32 bytes: encrypting succeeds and decrypting its output with the
  same key and receiver id returns \<open>P\<close>. When the framed length
  \<open>20 + |P| + |R|\<close> (in bytes) is a multiple of 32, the ciphertext is 32 bytes longer
  than the frame: a whole block of padding is added, and removed again. The library is
  any base64 and AES-CBC pair that round-trips.
\<close>

theorem envelope_round_trip:
  assumes "lib_round_trips lib"
    and "trim encodingAESKey \<noteq> []"
    and "length (base64_decode lib (withPadding (trim encodingAESKey))) = 32"
    and "length random16 = 16"
    and "well_formed plaintext"
    and "length (utf8_encode plaintext) < 2 ^ 32"
    and "well_formed (case receiveId of None \<Rightarrow> [] | Some r \<Rightarrow> r)"
  shows "\<exists>c. encryptWecomPlaintext lib encodingAESKey receiveId plaintext random16 = Inr c \<and>
     decryptWecomEncrypted lib encodingAESKey receiveId c = Inr plaintext \<and>
     (let n = 20 + length (utf8_encode plaintext)
                + length (utf8_encode (case receiveId of None \<Rightarrow> [] | Some r \<Rightarrow> r))
      in n mod 32 = 0 \<longrightarrow> length (base64_decode lib c) = n + 32)"
  using envelope_decrypt_encrypt [OF assms(1-4) assms(6) utf8_round_trip [OF assms(7)]]
    utf8_round_trip [OF assms(5)]
  by simp

lemma example_plaintext_encoding:
  "utf8_encode (js ''hello world!'') =
     [0x68, 0x65, 0x6C, 0x6C, 0x6F, 0x20, 0x77, 0x6F, 0x72, 0x6C, 0x64, 0x21]"
  by (simp add: utf8_encode_def utf8_bytes_of_def js_def is_high_surrogate_def)

theorem envelope_round_trip_witness:
  "lib_round_trips stand_in_lib \<and> trim example_key \<noteq> [] \<and>
   length (base64_decode stand_in_lib (withPadding (trim example_key))) = 32 \<and>
   length (replicate 16 (7 :: 8 word)) = 16 \<and>
   well_formed (js ''hello world!'') \<and> length (utf8_encode (js ''hello world!'')) < 2 ^ 32 \<and>
   (\<exists>c. encryptWecomPlaintext stand_in_lib example_key None (js ''hello world!'') (replicate 16 7) = Inr c \<and>
        decryptWecomEncrypted stand_in_lib example_key None c = Inr (js ''hello world!'') \<and>
        length (base64_decode stand_in_lib c) = 64)"
proof -
  have key: "trim example_key = example_key"
    by (simp add: example_key_def trim_def js_whitespace_def)
  have h2: "trim example_key \<noteq> []"
    unfolding key by (simp add: example_key_def)
  have h3: "length (base64_decode stand_in_lib (withPadding (trim example_key))) = 32"
    unfolding key by (simp add: example_key_def withPadding_def stand_in_lib_def)
  have h4: "length (replicate 16 (7 :: 8 word)) = 16"
    by simp
  have h5: "well_formed (js ''hello world!'')"
    by (simp add: well_formed_def js_def is_high_surrogate_def is_surrogate_def)
  have h6: "length (utf8_encode (js ''hello world!'')) < 2 ^ 32"
    by (simp add: example_plaintext_encoding)
  have h7: "well_formed (case None of None \<Rightarrow> [] | Some r \<Rightarrow> r)"
    by (simp add: well_formed_def)
  have e: "utf8_encode [] = []"
    by (simp add: utf8_encode_def)
  show ?thesis
    using envelope_round_trip [OF stand_in_round_trips h2 h3 h4 h5 h6 h7]
      stand_in_round_trips h2 h3 h5 h6
    by (simp add: example_plaintext_encoding e)
qed

lemma stand_in_fields:
  "base64_decode stand_in_lib = map ucast"
  "base64_encode stand_in_lib = map ucast"
  "aes_256_cbc_encrypt stand_in_lib k iv d = map (\<lambda>b. b + hd k) d"
  "aes_256_cbc_decrypt stand_in_lib k iv d = map (\<lambda>b. b - hd k) d"
  by (simp_all add: stand_in_lib_def)

lemma replicate_16: "replicate 16 x = [x, x, x, x, x, x, x, x, x, x, x, x, x, x, x, x]"
  by (simp add: numeral_eq_Suc)

lemma replicate_9: "replicate 9 x = [x, x, x, x, x, x, x, x, x]"
  by (simp add: numeral_eq_Suc)

lemma example_key_decoded:
  "decodeEncodingAESKey stand_in_lib example_key = Inr (replicate 31 0x41 @ [0x3D])"
proof -
  have key: "trim example_key = example_key"
    by (simp add: example_key_def trim_def js_whitespace_def)
  show ?thesis
    unfolding decodeEncodingAESKey_def key Let_def
    by (simp add: example_key_def withPadding_def stand_in_fields)
qed

lemma lone_surrogate_encoding: "utf8_encode [0xD800] = [0xEF, 0xBF, 0xBD]"
  by (simp add: utf8_encode_def utf8_bytes_of_def is_surrogate_def)

lemma replacement_decoding: "utf8_decode [0xEF, 0xBF, 0xBD] = [0xFFFD]"
  by (simp add: utf8_decode_def second_byte_ok_def is_continuation_def utf16_units_of_def)

text \<open>
  The claim as worded fails on a plaintext with an unpaired surrogate: the string of the
  single code unit U+D800 is encoded as the three bytes of U+FFFD, and decrypting returns
  the string U+FFFD. By \<open>envelope_decrypt_encrypt\<close> this is so with every library.
\<close>

theorem envelope_round_trip_counterexample:
  "encryptWecomPlaintext stand_in_lib example_key None [0xD800] (replicate 16 7)
     = Inr lone_surrogate_envelope \<and>
   decryptWecomEncrypted stand_in_lib example_key None lone_surrogate_envelope = Inr [0xFFFD] \<and>
   [0xFFFD] \<noteq> [0xD800 :: 16 word]"
proof -
  have e: "utf8_encode [] = []"
    by (simp add: utf8_encode_def)
  have d: "utf8_decode [] = []"
    by (simp add: utf8_decode_def)
  have enc: "encryptWecomPlaintext stand_in_lib example_key None [0xD800] (replicate 16 7)
     = Inr lone_surrogate_envelope"
    unfolding encryptWecomPlaintext_def example_key_decoded
    by (simp add: Let_def lone_surrogate_encoding e writeUInt32BE_def pkcs7Pad_def
          WECOM_PKCS7_BLOCK_SIZE_def stand_in_fields lone_surrogate_envelope_def replicate_16 replicate_9)
  have key: "trim example_key = example_key"
    by (simp add: example_key_def trim_def js_whitespace_def)
  have h2: "trim example_key \<noteq> []"
    unfolding key by (simp add: example_key_def)
  have h3: "length (base64_decode stand_in_lib (withPadding (trim example_key))) = 32"
    unfolding key by (simp add: example_key_def withPadding_def stand_in_lib_def)
  have h4: "length (replicate 16 (7 :: 8 word)) = 16"
    by simp
  have h5: "length (utf8_encode [0xD800]) < 2 ^ 32"
    by (simp add: lone_surrogate_encoding)
  have h6: "utf8_decode (utf8_encode (case None of None \<Rightarrow> [] | Some r \<Rightarrow> r))
              = (case None of None \<Rightarrow> [] | Some r \<Rightarrow> r)"
    by (simp add: e d)
  have dec: "decryptWecomEncrypted stand_in_lib example_key None lone_surrogate_envelope = Inr [0xFFFD]"
    using envelope_decrypt_encrypt [OF stand_in_round_trips h2 h3 h4 h5 h6] enc
    by (auto simp: lone_surrogate_encoding replacement_decoding)
  show ?thesis
    using enc dec by simp
qed

section \<open>Properties of the Bot webhook handler\<close>

lemma truncate_empty: "truncateUtf8Bytes [] n = []"
  by (simp add: truncateUtf8Bytes_def utf8_encode_def)

text \<open>
  Claim C10, as the code has it. A stream-refresh poll whose \<open>stream.id\<close>, trimmed, is
  not in the store is answered with status 200, the store left as it is and no agent
  started, by the encrypted reply of a stream payload with \<open>finish = true\<close> and empty
  content; the payload carries the trimmed id, or the id \<open>unknown\<close> when that is empty.
\<close>

theorem stream_refresh_unknown:
  assumes "lower_string (msg_msgtype msg) = js ''stream''"
    and "getStream (streamStore ms) (trimmed_or (msg_stream_id msg) []) = None"
  shows "handleBotPost ms target msg msgContent nonce timestamp random_hex random_hex2 now =
     (ms,
      \<lparr>statusCode = 200,
       body = \<lparr>plaintextJson =
                 StreamJson (if trimmed_or (msg_stream_id msg) [] = [] then js ''unknown''
                             else trimmed_or (msg_stream_id msg) []) True [] [],
               reply_nonce = nonce, reply_timestamp = timestamp\<rparr>\<rparr>,
      [])"
proof -
  have ne: "js ''stream'' \<noteq> js ''event''"
    by (simp add: js_def)
  show ?thesis
    using assms ne
    by (simp add: handleBotPost_def Let_def buildStreamReplyFromState_def unknown_stream_def
          truncate_empty jsonOk_def)
qed

lemma lower_stream: "lower_string (Some (js ''stream'')) = js ''stream''"
  by (simp add: lower_string_def js_def ascii_lower_def)

theorem stream_refresh_unknown_witness:
  "lower_string (msg_msgtype (stream_poll ''ab12'')) = js ''stream'' \<and>
   getStream (streamStore empty_monitor) (trimmed_or (msg_stream_id (stream_poll ''ab12'')) []) = None \<and>
   handleBotPost empty_monitor example_target (stream_poll ''ab12'') [] (js ''n'') (js ''t'') [] [] 0 =
     (empty_monitor, \<lparr>statusCode = 200, body = \<lparr>plaintextJson = StreamJson (js ''ab12'') True [] [],
               reply_nonce = js ''n'', reply_timestamp = js ''t''\<rparr>\<rparr>, [])"
proof -
  have t: "trimmed_or (msg_stream_id (stream_poll ''ab12'')) [] = js ''ab12''"
    by (simp add: stream_poll_def trimmed_or_def trim_def js_def js_whitespace_def)
  have h1: "lower_string (msg_msgtype (stream_poll ''ab12'')) = js ''stream''"
    by (simp add: stream_poll_def lower_stream)
  have h2: "getStream (streamStore empty_monitor) (trimmed_or (msg_stream_id (stream_poll ''ab12'')) []) = None"
    by (simp add: getStream_def empty_monitor_def new_store_def)
  have ne: "js ''ab12'' \<noteq> []" by (simp add: js_def)
  show ?thesis
    using stream_refresh_unknown [OF h1 h2, of example_target "[]" "js ''n''" "js ''t''" "[]" "[]" 0] h1 h2 ne
    by (simp add: t)
qed

text \<open>
  The claim as worded fails where the poll carries an empty id, which no stream has: the
  payload is not for that id but for the id \<open>unknown\<close>.
\<close>

theorem stream_refresh_unknown_counterexample:
  "lower_string (msg_msgtype (stream_poll '''')) = js ''stream'' \<and>
   msg_stream_id (stream_poll '''') = Some [] \<and>
   getStream (streamStore empty_monitor) [] = None \<and>
   handleBotPost empty_monitor example_target (stream_poll '''') [] (js ''n'') (js ''t'') [] [] 0 =
     (empty_monitor, \<lparr>statusCode = 200, body = \<lparr>plaintextJson = StreamJson (js ''unknown'') True [] [],
               reply_nonce = js ''n'', reply_timestamp = js ''t''\<rparr>\<rparr>, []) \<and>
   js ''unknown'' \<noteq> []"
proof -
  have t: "trimmed_or (msg_stream_id (stream_poll '''')) [] = []"
    by (simp add: stream_poll_def trimmed_or_def trim_def js_def)
  have h1: "lower_string (msg_msgtype (stream_poll '''')) = js ''stream''"
    by (simp add: stream_poll_def lower_stream)
  have h2: "getStream (streamStore empty_monitor) [] = None"
    by (simp add: getStream_def empty_monitor_def new_store_def)
  have ne: "js ''stream'' \<noteq> js ''event''" "js ''unknown'' \<noteq> []"
    by (simp_all add: js_def)
  have "handleBotPost empty_monitor example_target (stream_poll '''') [] (js ''n'') (js ''t'') [] [] 0 =
     (empty_monitor, \<lparr>statusCode = 200, body = \<lparr>plaintextJson = StreamJson (js ''unknown'') True [] [],
               reply_nonce = js ''n'', reply_timestamp = js ''t''\<rparr>\<rparr>, [])"
    using h1 h2 ne
    by (simp add: handleBotPost_def Let_def t buildStreamReplyFromState_def unknown_stream_def
          truncate_empty jsonOk_def)
  then show ?thesis
    using h1 h2 ne by (simp add: stream_poll_def js_def)
qed

text \<open>
  Claim C5, as the code has it. For a Bot POST whose message is neither an event nor a
  stream poll and carries a msg-id that the msg-id map already sends to a stream id, the
  handler answers 200 with the encrypted stream placeholder (not finished) for that
  stream id, and nothing else happens: the monitor state is unchanged, so no batch, stream
  or timer is created, and no agent is started.
\<close>

theorem duplicate_msgid_replies_placeholder:
  assumes "lower_string (msg_msgtype msg) \<noteq> js ''event''"
    and "lower_string (msg_msgtype msg) \<noteq> js ''stream''"
    and "msg_msgid msg = Some m" and "m \<noteq> []"
    and "getStreamByMsgId (streamStore ms) m = Some existingStreamId"
    and "existingStreamId \<noteq> []"
  shows "handleBotPost ms target msg msgContent nonce timestamp random_hex random_hex2 now =
     (ms,
      \<lparr>statusCode = 200,
       body = \<lparr>plaintextJson =
                 StreamJson existingStreamId False
                   (trimmed_or (streamPlaceholderContent target) (js ''1'')) [],
               reply_nonce = nonce, reply_timestamp = timestamp\<rparr>\<rparr>,
      [])"
  using assms
  by (simp add: handleBotPost_def Let_def truthy_def buildStreamPlaceholderReply_def jsonOk_def)

lemma lower_words:
  "lower_string (Some (js ''text'')) = js ''text''"
  "lower_string (Some (js ''event'')) = js ''event''"
  "lower_string (Some (js ''template_card_event'')) = js ''template_card_event''"
  by (simp_all add: lower_string_def js_def ascii_lower_def)

theorem duplicate_msgid_replies_placeholder_witness:
  "lower_string (msg_msgtype (inbound ''text'' '''' ''M1'')) \<noteq> js ''event'' \<and>
   lower_string (msg_msgtype (inbound ''text'' '''' ''M1'')) \<noteq> js ''stream'' \<and>
   msg_msgid (inbound ''text'' '''' ''M1'') = Some (js ''M1'') \<and> js ''M1'' \<noteq> [] \<and>
   getStreamByMsgId (streamStore seen_once) (js ''M1'') = Some (js ''s1'') \<and> js ''s1'' \<noteq> [] \<and>
   handleBotPost seen_once example_target (inbound ''text'' '''' ''M1'') (js ''hi'') (js ''n'') (js ''t'') [] [] 0 =
     (seen_once,
      \<lparr>statusCode = 200,
       body = \<lparr>plaintextJson = StreamJson (js ''s1'') False (js ''1'') [],
               reply_nonce = js ''n'', reply_timestamp = js ''t''\<rparr>\<rparr>,
      [])"
proof -
  have h1: "lower_string (msg_msgtype (inbound ''text'' '''' ''M1'')) \<noteq> js ''event''"
    and h2: "lower_string (msg_msgtype (inbound ''text'' '''' ''M1'')) \<noteq> js ''stream''"
    by (simp_all add: inbound_def lower_words) (simp_all add: js_def)
  have h3: "msg_msgid (inbound ''text'' '''' ''M1'') = Some (js ''M1'')"
    by (simp add: inbound_def)
  have h4: "js ''M1'' \<noteq> []" and h6: "js ''s1'' \<noteq> []"
    by (simp_all add: js_def)
  have h5: "getStreamByMsgId (streamStore seen_once) (js ''M1'') = Some (js ''s1'')"
    by (simp add: getStreamByMsgId_def seen_once_def)
  have p: "trimmed_or (streamPlaceholderContent example_target) (js ''1'') = js ''1''"
    by (simp add: example_target_def trimmed_or_def)
  show ?thesis
    using duplicate_msgid_replies_placeholder [OF h1 h2 h3 h4 h5 h6, of example_target "js ''hi''" "js ''n''" "js ''t''" "[]" "[]" 0]
      h1 h2 h3 h4 h5 h6
    by (simp add: p)
qed

text \<open>
  The claim as worded fails on events: a \<open>template_card_event\<close> whose msg-id is already
  mapped is answered with the empty payload, not with a stream placeholder.
\<close>

theorem duplicate_msgid_counterexample:
  "msg_msgid (inbound ''event'' ''template_card_event'' ''M1'') = Some (js ''M1'') \<and>
   getStreamByMsgId (streamStore seen_once) (js ''M1'') = Some (js ''s1'') \<and>
   handleBotPost seen_once example_target (inbound ''event'' ''template_card_event'' ''M1'') (js ''hi'')
       (js ''n'') (js ''t'') [] [] 0 =
     (seen_once,
      \<lparr>statusCode = 200,
       body = \<lparr>plaintextJson = EmptyJson, reply_nonce = js ''n'', reply_timestamp = js ''t''\<rparr>\<rparr>,
      [])"
proof -
  have h3: "msg_msgid (inbound ''event'' ''template_card_event'' ''M1'') = Some (js ''M1'')"
    by (simp add: inbound_def)
  have h4: "js ''M1'' \<noteq> []" and h6: "js ''s1'' \<noteq> []"
    by (simp_all add: js_def)
  have h5: "getStreamByMsgId (streamStore seen_once) (js ''M1'') = Some (js ''s1'')"
    by (simp add: getStreamByMsgId_def seen_once_def)
  have t: "lower_string (msg_msgtype (inbound ''event'' ''template_card_event'' ''M1'')) = js ''event''"
    "lower_string (msg_eventtype (inbound ''event'' ''template_card_event'' ''M1'')) = js ''template_card_event''"
    by (simp_all add: inbound_def lower_words)
  show ?thesis
    using h3 h4 h5 h6
    by (simp add: handleBotPost_def Let_def t truthy_def jsonOk_def)
qed

section \<open>Properties of the conversation queue\<close>

lemma onStreamFinished_other:
  "active_conversation_of store streamId = None \<Longrightarrow> onStreamFinished store streamId = (store, [])"
  by (auto simp: active_conversation_of_def onStreamFinished_def split: option.splits if_splits)

lemma onStreamFinished_idle:
  assumes "active_conversation_of store streamId = Some (ck, conv)" "queue conv = []"
  shows "onStreamFinished store streamId =
    (store\<lparr>conversationState := (conversationState store)(ck := None)\<rparr>, [])"
  using assms
  by (auto simp: active_conversation_of_def onStreamFinished_def split: option.splits if_splits)

lemma onStreamFinished_promote:
  assumes "active_conversation_of store streamId = Some (ck, conv)" "queue conv = nxt # rest" "nxt \<noteq> []"
  shows "onStreamFinished store streamId =
    (let store1 = store\<lparr>conversationState := (conversationState store)(ck \<mapsto>
                     conv\<lparr>activeBatchKey := nxt, queue := rest\<rparr>)\<rparr>
     in case pendingInbounds store nxt of
          None \<Rightarrow> (store1, [])
        | Some pending \<Rightarrow> if readyToFlush pending then flushPending store1 nxt else (store1, []))"
  using assms
  by (auto simp: active_conversation_of_def onStreamFinished_def Let_def split: option.splits if_splits)


lemma requestFlush_active:
  assumes "pendingInbounds store k = Some pending"
    and "conversationState store (p_conversationKey pending) = Some conv"
    and "activeBatchKey conv = k"
  shows "requestFlush store k =
    (store\<lparr>pendingInbounds := (pendingInbounds store)(k := None)\<rparr>,
     [pending\<lparr>timeout := None, readyToFlush := False\<rparr>])"
  using assms by (simp add: requestFlush_def flushPending_def Let_def)



section \<open>Batch keys\<close>

text \<open>Decimal digits can be read back, so \<open>show_nat\<close> is injective, and the queued batch
  keys of a conversation differ from its initial batch key and from each other.\<close>

lemma digit_unat: "n < 10 \<Longrightarrow> unat (of_nat (48 + n) :: 16 word) = 48 + n"
proof -
  assume "n < 10"
  have "unat (of_nat (48 + n) :: 16 word) = (48 + n) mod 2 ^ LENGTH(16)"
    by (simp only: unat_of_nat)
  with \<open>n < 10\<close> show ?thesis by simp
qed

lemma digit_value: "n < 10 \<Longrightarrow> unat (of_nat (48 + n) :: 16 word) - 48 = n"
  by (simp add: digit_unat del: of_nat_add)

lemma read_show: "read_digits (show_nat n) = n"
proof (induction n rule: show_nat.induct)
  case (1 n)
  show ?case
  proof (cases "n < 10")
    case True
    then show ?thesis
      by (subst show_nat.simps) (simp add: read_digits_def digit_value del: of_nat_add)
  next
    case False
    have "read_digits (show_nat n) = 10 * read_digits (show_nat (n div 10)) + n mod 10"
      using False by (subst show_nat.simps) (simp add: read_digits_def digit_value del: of_nat_add)
    with 1 False show ?thesis by simp
  qed
qed

lemma show_nat_inj: "show_nat m = show_nat n \<Longrightarrow> m = n"
  by (metis read_show)

lemma show_nat_no_hash: "0x23 \<notin> set (show_nat n)"
proof (induction n rule: show_nat.induct)
  case (1 n)
  have d: "(of_nat (48 + k) :: 16 word) \<noteq> 0x23" if "k < 10" for k
  proof
    assume "(of_nat (48 + k) :: 16 word) = 0x23"
    then have "unat (of_nat (48 + k) :: 16 word) = unat (0x23 :: 16 word)" by (simp only:)
    with that show False by (simp only: digit_unat) simp
  qed
  show ?case
  proof (cases "n < 10")
    case True
    then show ?thesis using d [of n] by (subst show_nat.simps) auto
  next
    case False
    then show ?thesis
      using 1 d [of "n mod 10"] by (subst show_nat.simps) auto
  qed
qed

lemma queued_key_not_initial: "queued_key c n \<noteq> c"
  by (simp add: queued_key_def js_def)

lemma queued_key_not_empty: "queued_key c n \<noteq> []"
  by (simp add: queued_key_def js_def)

lemma queued_key_has_hash: "0x23 \<in> set (queued_key c n)"
  by (simp add: queued_key_def js_def)

lemma queued_key_not_conv: "conv_key_ok c' \<Longrightarrow> queued_key c n \<noteq> c'"
  using queued_key_has_hash [of c n] by (auto simp: conv_key_ok_def)

lemma queued_key_prefix:
  assumes "0x23 \<notin> set c"
  shows "takeWhile (\<lambda>x. x \<noteq> 0x23) (queued_key c n) = c"
proof -
  have "takeWhile (\<lambda>x. x \<noteq> 0x23) (c @ (0x23 # rest)) = c" for rest :: jsstring
    using assms by (auto simp: takeWhile_tail)
  then show ?thesis by (simp add: queued_key_def js_def)
qed

lemma queued_key_inj:
  assumes "conv_key_ok c" "conv_key_ok c'" "queued_key c n = queued_key c' m"
  shows "c = c' \<and> n = m"
proof -
  have c: "c = c'"
    using assms queued_key_prefix [of c n] queued_key_prefix [of c' m]
    by (simp add: conv_key_ok_def)
  with assms(3) have "show_nat n = show_nat m"
    by (simp add: queued_key_def)
  with c show ?thesis by (simp add: show_nat_inj)
qed

lemma queued_key_same_conv: "queued_key c n = queued_key c m \<Longrightarrow> n = m"
  by (simp add: queued_key_def show_nat_inj)

lemma stream_id_trim: "is_stream_id x \<Longrightarrow> trim x = x \<and> x \<noteq> []"
proof -
  assume a: "is_stream_id x"
  have nw: "\<not> js_whitespace c" if "is_hex_digit c" for c
    using that by (auto simp: is_hex_digit_def js_whitespace_def word_le_nat_alt)
  have all: "\<forall>c\<in>set x. \<not> js_whitespace c"
    using a nw by (auto simp: is_stream_id_def list_all_iff)
  have ne: "x \<noteq> []" using a by (auto simp: is_stream_id_def)
  have 1: "dropWhile js_whitespace x = x"
    using all ne by (cases x) auto
  have 2: "dropWhile js_whitespace (rev x) = rev x"
    using all ne by (cases "rev x") auto
  show ?thesis using ne by (simp add: trim_def 1 2)
qed

section \<open>The cases of an admission\<close>

lemma createStream_fields:
  "snd (createStream store msgid ck bk r now) = r"
  "pendingInbounds (fst (createStream store msgid ck bk r now)) = pendingInbounds store"
  "conversationState (fst (createStream store msgid ck bk r now)) = conversationState store"
  "batchStreamIdToAckStreamIds (fst (createStream store msgid ck bk r now)) = batchStreamIdToAckStreamIds store"
  "streams (fst (createStream store msgid ck bk r now)) =
     (streams store)(r \<mapsto> \<lparr>st_streamId = r, st_msgid = msgid, st_conversationKey = ck,
            st_batchKey = bk, createdAt = now, updatedAt = now, started = False,
            finished = False, content = [], images = None, fallbackMode = None\<rparr>)"
  "streamIdToBatchKey (fst (createStream store msgid ck bk r now)) =
     (if truthy bk then (streamIdToBatchKey store)(r \<mapsto> the bk) else streamIdToBatchKey store)"
  "msgidToStreamId (fst (createStream store msgid ck bk r now)) =
     (if truthy msgid then (msgidToStreamId store)(the msgid \<mapsto> r) else msgidToStreamId store)"
  by (auto simp: createStream_def Let_def truthy_def split: option.splits)

lemma add_first:
  assumes "conversationState store ck = None"
  shows "addPendingMessage store ck target msg msgContent nonce timestamp debounce r now =
    ((fst (createStream store (msg_msgid msg) (Some ck) (Some ck) r now))\<lparr>
        pendingInbounds := (pendingInbounds store)(ck \<mapsto>
           new_pending r ck ck target msg msgContent nonce timestamp now (debounce_of debounce)),
        conversationState := (conversationState store)(ck \<mapsto>
           \<lparr>activeBatchKey = ck, queue = [], nextSeq = 1\<rparr>)\<rparr>,
     r, active_new)"
  using assms
  by (simp add: addPendingMessage_def Let_def debounce_of_def createStream_def)

lemma add_merge_active:
  assumes "conversationState store ck = Some st" "active_open store ck st"
    and "pendingInbounds store (activeBatchKey st) = Some ap"
  shows "addPendingMessage store ck target msg msgContent nonce timestamp debounce r now =
    (store\<lparr>pendingInbounds := (pendingInbounds store)(activeBatchKey st \<mapsto>
        merged_pending ap msgContent (msg_msgid msg) (debounce_of debounce))\<rparr>,
     p_streamId ap, active_merged)"
  using assms
  by (simp add: addPendingMessage_def Let_def debounce_of_def active_open_def)

lemma add_not_open:
  assumes "conversationState store ck = Some st" "\<not> active_open store ck st"
  shows "addPendingMessage store ck target msg msgContent nonce timestamp debounce r now =
    (case queued_pending store st of
       Some (q, e) \<Rightarrow>
         (store\<lparr>pendingInbounds := (pendingInbounds store)(q \<mapsto>
             merged_pending e msgContent (msg_msgid msg) (debounce_of debounce))\<rparr>,
          p_streamId e, queued_merged)
     | None \<Rightarrow>
        ((fst (createStream
             (store\<lparr>conversationState := (conversationState store)(ck \<mapsto>
                 st\<lparr>nextSeq := nextSeq st + 1, queue := [queued_key ck (nextSeq st)]\<rparr>)\<rparr>)
             (msg_msgid msg) (Some ck) (Some (queued_key ck (nextSeq st))) r now))\<lparr>
        pendingInbounds := (pendingInbounds store)(queued_key ck (nextSeq st) \<mapsto>
           new_pending r ck (queued_key ck (nextSeq st)) target msg msgContent nonce timestamp now
             (debounce_of debounce))\<rparr>,
     r, queued_new))"
proof -
  have no_merge: "(case pendingInbounds store (activeBatchKey st) of
            None \<Rightarrow> None
          | Some ap \<Rightarrow>
              if \<not> activeBatchKey st = ck \<and> \<not> stream_started store (p_streamId ap)
              then Some ap else None) = None"
    using assms(2) by (auto simp: active_open_def split: option.splits)
  show ?thesis
    unfolding addPendingMessage_def Let_def assms(1) option.case no_merge queued_pending_def [symmetric]
      debounce_of_def [symmetric]
    by (simp add: createStream_def Let_def split: option.splits)
qed

section \<open>Invariants of the stores with plain conversation keys\<close>

lemma store_invI:
  "pending_inv store \<Longrightarrow> batch_map_inv store \<Longrightarrow> conv_inv store \<Longrightarrow> queue_inv store \<Longrightarrow> store_inv store"
  by (simp add: store_inv_def)

lemma store_invD:
  assumes "store_inv store"
  shows "pending_inv store" "batch_map_inv store" "conv_inv store" "queue_inv store"
  using assms by (simp_all add: store_inv_def)

lemma pending_invD:
  assumes "pending_inv store" "pendingInbounds store k = Some p"
  shows "is_stream_id (p_streamId p)" "streams store (p_streamId p) \<noteq> None"
    "streamIdToBatchKey store (p_streamId p) = Some k"
  using assms by (auto simp: pending_inv_def)

lemma conv_invD:
  assumes "conv_inv store" "conversationState store c = Some st"
  shows "conv_key_ok c" "conv_shape c st"
  using assms by (auto simp: conv_inv_def)

lemma queue_invD:
  assumes "queue_inv store" "conversationState store c = Some st" "queue st \<noteq> []"
  shows "pendingInbounds store (hd (queue st)) \<noteq> None" "\<not> active_open store c st"
  using assms by (auto simp: queue_inv_def)

text \<open>The shape of a conversation entry: its batch keys and what they are not.\<close>

lemma conv_shape_queue:
  assumes "conv_shape c st" "queue st \<noteq> []"
  shows "queue st = [queued_key c (nextSeq st - 1)]" "0 < nextSeq st"
    "activeBatchKey st \<noteq> hd (queue st)"
proof -
  from assms have q: "0 < nextSeq st" "queue st = [queued_key c (nextSeq st - 1)]"
    and a: "activeBatchKey st = c \<or> (\<exists>m<nextSeq st - 1. activeBatchKey st = queued_key c m)"
    by (auto simp: conv_shape_def)
  show "queue st = [queued_key c (nextSeq st - 1)]" "0 < nextSeq st" by (rule q)+
  show "activeBatchKey st \<noteq> hd (queue st)"
  proof
    assume e: "activeBatchKey st = hd (queue st)"
    from a show False
    proof
      assume "activeBatchKey st = c"
      with e q show False using queued_key_not_initial [of c "nextSeq st - 1"] by simp
    next
      assume "\<exists>m<nextSeq st - 1. activeBatchKey st = queued_key c m"
      then obtain m where "m < nextSeq st - 1" "activeBatchKey st = queued_key c m" by blast
      with e q have "queued_key c m = queued_key c (nextSeq st - 1)" by simp
      then have "m = nextSeq st - 1" by (rule queued_key_same_conv)
      with \<open>m < nextSeq st - 1\<close> show False by simp
    qed
  qed
qed

lemma conv_shape_active:
  assumes "conv_shape c st"
  shows "activeBatchKey st = c \<or> (\<exists>m. activeBatchKey st = queued_key c m)"
  using assms by (auto simp: conv_shape_def)

lemma keys_apart:
  assumes "conv_key_ok c" "conv_shape c st" "conv_key_ok c'" "conv_shape c' st'" "c \<noteq> c'"
  shows "activeBatchKey st \<noteq> activeBatchKey st'"
    and "queue st \<noteq> [] \<Longrightarrow> hd (queue st) \<noteq> activeBatchKey st'"
    and "activeBatchKey st \<noteq> c'"
    and "activeBatchKey st \<noteq> queued_key c' n"
proof -
  have a: "activeBatchKey st = c \<or> (\<exists>m. activeBatchKey st = queued_key c m)"
    and a': "activeBatchKey st' = c' \<or> (\<exists>m. activeBatchKey st' = queued_key c' m)"
    using assms(2,4) by (auto dest: conv_shape_active)
  show 3: "activeBatchKey st \<noteq> c'"
    using a assms(1,3,5) by (auto dest: queued_key_not_conv)
  have 4: "activeBatchKey st \<noteq> queued_key c' k" for k
    using a assms(1,3,5) queued_key_not_conv [of c c' k] queued_key_inj [of c c']
    by auto
  show "activeBatchKey st \<noteq> queued_key c' n"
    by (rule 4)
  show "activeBatchKey st \<noteq> activeBatchKey st'"
    using a' 3 4 by metis
  show "hd (queue st) \<noteq> activeBatchKey st'" if "queue st \<noteq> []"
  proof -
    have "hd (queue st) = queued_key c (nextSeq st - 1)"
      using conv_shape_queue(1) [OF assms(2) that] by simp
    then show ?thesis
      using a' assms(1,3,5) queued_key_not_conv [of c' c] queued_key_inj [of c c']
      by auto
  qed
qed

lemma upd_pending_inv:
  assumes inv: "store_inv store"
    and p: "pendingInbounds store k = Some p"
    and P': "pendingInbounds store' = (pendingInbounds store)(k \<mapsto> p')"
    and sid: "p_streamId p' = p_streamId p"
    and same: "streams store' = streams store" "streamIdToBatchKey store' = streamIdToBatchKey store"
      "conversationState store' = conversationState store"
  shows "store_inv store'"
proof (rule store_invI)
  note i = store_invD [OF inv]
  have started: "stream_started store' x = stream_started store x" for x
    by (simp add: stream_started_def same)
  show "pending_inv store'"
    using i(1) p sid unfolding pending_inv_def P' same
    by (auto split: if_splits)
  show "batch_map_inv store'"
    using i(2) unfolding batch_map_inv_def same .
  show "conv_inv store'"
    using i(3) unfolding conv_inv_def same .
  have open_same: "active_open store' c st = active_open store c st" for c st
    using p sid unfolding active_open_def P' started
    by (auto split: option.splits)
  show "queue_inv store'"
    using i(4) unfolding queue_inv_def same open_same P'
    by auto
qed

lemma del_pending_inv:
  assumes inv: "store_inv store"
    and P': "pendingInbounds store' = (pendingInbounds store)(k := None)"
    and same: "streams store' = streams store" "streamIdToBatchKey store' = streamIdToBatchKey store"
      "conversationState store' = conversationState store"
    and nq: "\<And>c st. conversationState store c = Some st \<Longrightarrow> queue st \<noteq> [] \<Longrightarrow> hd (queue st) \<noteq> k"
  shows "store_inv store'"
proof (rule store_invI)
  note i = store_invD [OF inv]
  have started: "stream_started store' x = stream_started store x" for x
    by (simp add: stream_started_def same)
  show "pending_inv store'"
    using i(1) unfolding pending_inv_def P' same
    by (auto split: if_splits)
  show "batch_map_inv store'"
    using i(2) unfolding batch_map_inv_def same .
  show "conv_inv store'"
    using i(3) unfolding conv_inv_def same .
  have open_less: "active_open store' c st \<Longrightarrow> active_open store c st" for c st
    unfolding active_open_def P' started
    by (auto split: option.splits if_splits)
  show "queue_inv store'"
    unfolding queue_inv_def same
  proof (intro allI impI)
    fix c st
    assume c: "conversationState store c = Some st" and q: "queue st \<noteq> []"
    from queue_invD [OF i(4) c q] nq [OF c q] open_less [of c st]
    show "pendingInbounds store' (hd (queue st)) \<noteq> None \<and> \<not> active_open store' c st"
      by (auto simp: P')
  qed
qed

lemma promote_inv:
  assumes inv: "store_inv store"
    and c: "conversationState store ck = Some conv" and q: "queue conv = nxt # rest"
    and C': "conversationState store' =
       (conversationState store)(ck \<mapsto> conv\<lparr>activeBatchKey := nxt, queue := rest\<rparr>)"
    and same: "streams store' = streams store" "streamIdToBatchKey store' = streamIdToBatchKey store"
      "pendingInbounds store' = pendingInbounds store"
  shows "store_inv store'" and "rest = []"
proof -
  note i = store_invD [OF inv]
  note shape = conv_invD [OF i(3) c]
  have qne: "queue conv \<noteq> []" using q by simp
  from conv_shape_queue [OF shape(2) qne] q
  have nxt: "nxt = queued_key ck (nextSeq conv - 1)" and rest: "rest = []" and pos: "0 < nextSeq conv"
    by simp_all
  show "rest = []" by (rule rest)
  have "nextSeq conv - 1 < nextSeq conv" using pos by simp
  then have "\<exists>m<nextSeq conv. nxt = queued_key ck m"
    unfolding nxt by blast
  then have new_shape: "conv_shape ck (conv\<lparr>activeBatchKey := nxt, queue := rest\<rparr>)"
    by (simp add: conv_shape_def rest)
  have started: "stream_started store' x = stream_started store x" for x
    by (simp add: stream_started_def same)
  show "store_inv store'"
  proof (rule store_invI)
    show "pending_inv store'"
      using i(1) unfolding pending_inv_def same .
    show "batch_map_inv store'"
      using i(2) unfolding batch_map_inv_def same .
    show "conv_inv store'"
      using i(3) shape(1) new_shape unfolding conv_inv_def C'
      by (auto split: if_splits)
    show "queue_inv store'"
      using i(4) unfolding queue_inv_def C' same active_open_def started
      by (auto simp: rest split: if_splits)
  qed
qed

lemma delete_conv_inv:
  assumes inv: "store_inv store"
    and C': "conversationState store' = (conversationState store)(ck := None)"
    and same: "streams store' = streams store" "streamIdToBatchKey store' = streamIdToBatchKey store"
      "pendingInbounds store' = pendingInbounds store"
  shows "store_inv store'"
proof (rule store_invI)
  note i = store_invD [OF inv]
  have started: "stream_started store' x = stream_started store x" for x
    by (simp add: stream_started_def same)
  show "pending_inv store'"
    using i(1) unfolding pending_inv_def same .
  show "batch_map_inv store'"
    using i(2) unfolding batch_map_inv_def same .
  show "conv_inv store'"
    using i(3) unfolding conv_inv_def C'
    by (auto split: if_splits)
  show "queue_inv store'"
    using i(4) unfolding queue_inv_def C' same active_open_def started
    by (auto split: if_splits)
qed

lemma upd_stream_inv:
  assumes inv: "store_inv store"
    and s: "streams store sid = Some s"
    and S': "streams store' = (streams store)(sid \<mapsto> s')"
    and mono: "started s \<Longrightarrow> started s'"
    and same: "pendingInbounds store' = pendingInbounds store"
      "streamIdToBatchKey store' = streamIdToBatchKey store"
      "conversationState store' = conversationState store"
  shows "store_inv store'"
proof (rule store_invI)
  note i = store_invD [OF inv]
  have started: "stream_started store x \<Longrightarrow> stream_started store' x" for x
    using s mono by (auto simp: stream_started_def S')
  show "pending_inv store'"
    using i(1) unfolding pending_inv_def S' same by auto
  show "batch_map_inv store'"
    using i(2) unfolding batch_map_inv_def S' same by auto
  show "conv_inv store'"
    using i(3) unfolding conv_inv_def same .
  have open_less: "active_open store' c st \<Longrightarrow> active_open store c st" for c st
    using started unfolding active_open_def same
    by (auto split: option.splits)
  show "queue_inv store'"
    using i(4) open_less unfolding queue_inv_def same by blast
qed

lemma new_stream_inv:
  assumes inv: "store_inv store"
    and r: "streams store r = None"
    and S': "streams store' = (streams store)(r \<mapsto> snew)"
    and same: "pendingInbounds store' = pendingInbounds store"
      "streamIdToBatchKey store' = streamIdToBatchKey store"
      "conversationState store' = conversationState store"
  shows "store_inv store'"
proof (rule store_invI)
  note i = store_invD [OF inv]
  have started: "stream_started store' x = stream_started store x" if "streams store x \<noteq> None" for x
    using that r by (auto simp: stream_started_def S')
  show "pending_inv store'"
    using i(1) unfolding pending_inv_def S' same by auto
  show "batch_map_inv store'"
    using i(2) unfolding batch_map_inv_def S' same by auto
  show "conv_inv store'"
    using i(3) unfolding conv_inv_def same .
  have open_same: "active_open store' c st = active_open store c st" for c st
    using started pending_invD(2) [OF i(1)] unfolding active_open_def same
    by (auto split: option.splits)
  show "queue_inv store'"
    using i(4) unfolding queue_inv_def same open_same .
qed

lemma new_batch_inv:
  assumes inv: "store_inv store"
    and fresh: "is_stream_id r" "streams store r = None"
    and S': "streams store' = (streams store)(r \<mapsto> snew)"
    and B': "streamIdToBatchKey store' = (streamIdToBatchKey store)(r \<mapsto> bk)"
    and P': "pendingInbounds store' = (pendingInbounds store)(bk \<mapsto> np)"
    and np: "p_streamId np = r"
    and C': "conversationState store' = (conversationState store)(ck \<mapsto> st')"
    and ok: "conv_key_ok ck" and shape: "conv_shape ck st'"
    and bk: "bk = ck \<or> (\<exists>n. bk = queued_key ck n)"
    and q: "queue st' \<noteq> [] \<Longrightarrow> hd (queue st') = bk \<and> \<not> active_open store' ck st'"
  shows "store_inv store'"
proof (rule store_invI)
  note i = store_invD [OF inv]
  have exists: "streams store (p_streamId p) \<noteq> None" if "pendingInbounds store k = Some p" for k p
    using pending_invD(2) [OF i(1) that] .
  have not_r: "p_streamId p \<noteq> r" if "pendingInbounds store k = Some p" for k p
    using exists [OF that] fresh(2) by auto
  show "pending_inv store'"
    unfolding pending_inv_def
  proof (intro allI impI)
    fix k p assume kp: "pendingInbounds store' k = Some p"
    show "is_stream_id (p_streamId p) \<and> streams store' (p_streamId p) \<noteq> None \<and>
          streamIdToBatchKey store' (p_streamId p) = Some k"
    proof (cases "k = bk")
      case True
      with kp have "p = np" by (simp add: P')
      then show ?thesis using True fresh(1) by (simp add: np S' B')
    next
      case False
      with kp have old: "pendingInbounds store k = Some p" by (simp add: P')
      from pending_invD [OF i(1) old] not_r [OF old] show ?thesis
        by (simp add: S' B')
    qed
  qed
  show "batch_map_inv store'"
    using i(2) unfolding batch_map_inv_def S' B' by auto
  show "conv_inv store'"
    using i(3) ok shape unfolding conv_inv_def C' by (auto split: if_splits)
  show "queue_inv store'"
    unfolding queue_inv_def
  proof (intro allI impI)
    fix c st
    assume c: "conversationState store' c = Some st" and qne: "queue st \<noteq> []"
    show "pendingInbounds store' (hd (queue st)) \<noteq> None \<and> \<not> active_open store' c st"
    proof (cases "c = ck")
      case True
      with c have "st = st'" by (simp add: C')
      with q qne True show ?thesis by (simp add: P')
    next
      case False
      with c have old: "conversationState store c = Some st" by (simp add: C')
      note sh = conv_invD [OF i(3) old]
      have a_bk: "activeBatchKey st \<noteq> bk"
        using bk keys_apart(3,4) [OF sh ok shape False] by auto
      have "active_open store' c st = active_open store c st"
      proof (cases "pendingInbounds store (activeBatchKey st)")
        case None
        then show ?thesis using a_bk by (simp add: active_open_def P')
      next
        case (Some ap)
        have "stream_started store' (p_streamId ap) = stream_started store (p_streamId ap)"
          using not_r [OF Some] by (simp add: stream_started_def S')
        then show ?thesis using a_bk Some by (simp add: active_open_def P')
      qed
      with queue_invD [OF i(4) old qne] show ?thesis
        by (auto simp: P')
    qed
  qed
qed

lemma store_inv_same_fields:
  assumes "store_inv store"
    and "streams store' = streams store" "pendingInbounds store' = pendingInbounds store"
      "conversationState store' = conversationState store"
      "streamIdToBatchKey store' = streamIdToBatchKey store"
  shows "store_inv store'"
proof -
  have "store_inv store' = store_inv store"
    unfolding store_inv_def pending_inv_def batch_map_inv_def conv_inv_def queue_inv_def
      active_open_def stream_started_def assms(2-5) ..
  with assms(1) show ?thesis by simp
qed

lemma merged_pending_stream: "p_streamId (merged_pending p c m d) = p_streamId p"
  by (simp add: merged_pending_def)

lemma new_pending_stream: "p_streamId (new_pending r ck bk t m c n ts now d) = r"
  by (simp add: new_pending_def)

lemma inv_add:
  assumes inv: "store_inv store" and ok: "conv_key_ok ck" and fresh: "fresh_stream_id store r"
  shows "store_inv (fst (addPendingMessage store ck target msg msgContent nonce timestamp debounce r now))"
proof -
  note i = store_invD [OF inv]
  have fr: "is_stream_id r" "streams store r = None"
    using fresh by (simp_all add: fresh_stream_id_def)
  have ck_ne: "ck \<noteq> []" using ok by (simp add: conv_key_ok_def)
  show ?thesis
  proof (cases "conversationState store ck")
    case None
    show ?thesis
      unfolding add_first [OF None] fst_conv
      by (rule new_batch_inv [OF inv fr, where bk = ck and ck = ck and
            st' = "\<lparr>activeBatchKey = ck, queue = [], nextSeq = 1\<rparr>" and
            np = "new_pending r ck ck target msg msgContent nonce timestamp now (debounce_of debounce)" and
            snew = "\<lparr>st_streamId = r, st_msgid = msg_msgid msg, st_conversationKey = Some ck,
                st_batchKey = Some ck, createdAt = now, updatedAt = now, started = False,
                finished = False, content = [], images = None, fallbackMode = None\<rparr>"])
         (simp_all add: createStream_fields truthy_def ck_ne new_pending_stream ok conv_shape_def)
  next
    case (Some st)
    note sh = conv_invD [OF i(3) Some]
    show ?thesis
    proof (cases "active_open store ck st")
      case True
      then obtain ap where ap: "pendingInbounds store (activeBatchKey st) = Some ap"
        by (auto simp: active_open_def split: option.splits)
      show ?thesis
        unfolding add_merge_active [OF Some True ap] fst_conv
        by (rule upd_pending_inv [OF inv ap, where
              p' = "merged_pending ap msgContent (msg_msgid msg) (debounce_of debounce)"])
           (simp_all add: merged_pending_stream)
    next
      case False
      show ?thesis
      proof (cases "queued_pending store st")
        case (Some qe)
        obtain q e where qe: "qe = (q, e)" by (cases qe)
        have e: "pendingInbounds store q = Some e"
          using Some unfolding qe queued_pending_def
          by (auto split: list.splits if_splits option.splits)
        show ?thesis
          unfolding add_not_open [OF \<open>conversationState store ck = Some st\<close> False] Some qe
          by (simp, rule upd_pending_inv [OF inv e, where
                p' = "merged_pending e msgContent (msg_msgid msg) (debounce_of debounce)"])
             (simp_all add: merged_pending_stream)
      next
        case None
        define bk where "bk = queued_key ck (nextSeq st)"
        define st' where "st' = st\<lparr>nextSeq := nextSeq st + 1, queue := [bk]\<rparr>"
        define store' where "store' = (fst (createStream
             (store\<lparr>conversationState := (conversationState store)(ck \<mapsto> st')\<rparr>)
             (msg_msgid msg) (Some ck) (Some bk) r now))\<lparr>
          pendingInbounds := (pendingInbounds store)(bk \<mapsto>
             new_pending r ck bk target msg msgContent nonce timestamp now (debounce_of debounce))\<rparr>"
        have res: "fst (addPendingMessage store ck target msg msgContent nonce timestamp debounce r now) = store'"
          unfolding add_not_open [OF \<open>conversationState store ck = Some st\<close> False] None
          by (simp add: store'_def st'_def bk_def)
        have bk_ne: "bk \<noteq> []" by (simp add: bk_def queued_key_not_empty)
        have fields: "streams store' = (streams store)(r \<mapsto>
              \<lparr>st_streamId = r, st_msgid = msg_msgid msg, st_conversationKey = Some ck,
                st_batchKey = Some bk, createdAt = now, updatedAt = now, started = False,
                finished = False, content = [], images = None, fallbackMode = None\<rparr>)"
            "streamIdToBatchKey store' = (streamIdToBatchKey store)(r \<mapsto> bk)"
            "pendingInbounds store' = (pendingInbounds store)(bk \<mapsto>
               new_pending r ck bk target msg msgContent nonce timestamp now (debounce_of debounce))"
            "conversationState store' = (conversationState store)(ck \<mapsto> st')"
          by (simp_all add: store'_def createStream_fields truthy_def bk_ne)
        have act: "activeBatchKey st = ck \<or> (\<exists>m<nextSeq st. activeBatchKey st = queued_key ck m)"
          using sh(2) by (simp add: conv_shape_def)
        have act': "activeBatchKey st = ck \<or> (\<exists>m<nextSeq st + 1. activeBatchKey st = queued_key ck m)"
        proof -
          from act show ?thesis
          proof
            assume "activeBatchKey st = ck"
            then show ?thesis by simp
          next
            assume "\<exists>m<nextSeq st. activeBatchKey st = queued_key ck m"
            then obtain m where "m < nextSeq st" "activeBatchKey st = queued_key ck m" by blast
            then have "m < nextSeq st + 1 \<and> activeBatchKey st = queued_key ck m" by simp
            then show ?thesis by blast
          qed
        qed
        have shape': "conv_shape ck st'"
          using act act' by (simp add: conv_shape_def st'_def bk_def)
        have a_bk: "activeBatchKey st \<noteq> bk"
        proof
          assume e: "activeBatchKey st = bk"
          from act show False
          proof
            assume "activeBatchKey st = ck"
            with e show False using queued_key_not_initial [of ck "nextSeq st"] by (simp add: bk_def)
          next
            assume "\<exists>m<nextSeq st. activeBatchKey st = queued_key ck m"
            then obtain m where m: "m < nextSeq st" "activeBatchKey st = queued_key ck m" by blast
            with e have "queued_key ck m = queued_key ck (nextSeq st)" by (simp add: bk_def)
            then have "m = nextSeq st" by (rule queued_key_same_conv)
            with m show False by simp
          qed
        qed
        have not_open: "\<not> active_open store' ck st'"
        proof (cases "pendingInbounds store (activeBatchKey st)")
          case None
          then show ?thesis using a_bk by (simp add: active_open_def fields st'_def)
        next
          case (Some ap)
          have "p_streamId ap \<noteq> r"
            using pending_invD(2) [OF i(1) Some] fr(2) by auto
          then have "stream_started store' (p_streamId ap) = stream_started store (p_streamId ap)"
            by (simp add: stream_started_def fields)
          then show ?thesis
            using False a_bk Some by (simp add: active_open_def fields st'_def)
        qed
        have "store_inv store'"
          by (rule new_batch_inv [OF inv fr fields(1,2,3) new_pending_stream fields(4) ok shape'])
             (use not_open in \<open>auto simp: bk_def st'_def\<close>)
        then show ?thesis by (simp add: res)
      qed
    qed
  qed
qed

lemma flushPending_store:
  "fst (flushPending store k) = store\<lparr>pendingInbounds := (pendingInbounds store)(k := None)\<rparr>"
proof (cases "pendingInbounds store k")
  case None
  then have "(pendingInbounds store)(k := None) = pendingInbounds store"
    by (simp add: fun_upd_idem)
  with None show ?thesis by (simp add: flushPending_def)
next
  case (Some p)
  then show ?thesis by (simp add: flushPending_def)
qed

lemma inv_flush_active:
  assumes inv: "store_inv store"
    and c: "conversationState store cp = Some stp" and a: "activeBatchKey stp = k"
  shows "store_inv (fst (flushPending store k))"
proof -
  note i = store_invD [OF inv]
  note shp = conv_invD [OF i(3) c]
  show ?thesis
    unfolding flushPending_store
  proof (rule del_pending_inv [OF inv, where k = k])
    fix c st
    assume cst: "conversationState store c = Some st" and q: "queue st \<noteq> []"
    note sh = conv_invD [OF i(3) cst]
    show "hd (queue st) \<noteq> k"
    proof (cases "c = cp")
      case True
      with c cst have "st = stp" by simp
      with conv_shape_queue(3) [OF sh(2) q] a show ?thesis by auto
    next
      case False
      from keys_apart(2) [OF sh shp False q] a show ?thesis by simp
    qed
  qed simp_all
qed

lemma inv_requestFlush:
  assumes inv: "store_inv store"
  shows "store_inv (fst (requestFlush store k))"
proof (cases "pendingInbounds store k")
  case None
  then show ?thesis using inv by (simp add: requestFlush_def)
next
  case (Some p)
  show ?thesis
  proof (cases "conversationState store (p_conversationKey p)")
    case None
    have "fst (requestFlush store k) = store\<lparr>pendingInbounds := (pendingInbounds store)(k \<mapsto>
                         p\<lparr>timeout := None, readyToFlush := True\<rparr>)\<rparr>"
      using Some None by (simp add: requestFlush_def)
    moreover have "store_inv (store\<lparr>pendingInbounds := (pendingInbounds store)(k \<mapsto>
                         p\<lparr>timeout := None, readyToFlush := True\<rparr>)\<rparr>)"
      by (rule upd_pending_inv [OF inv Some, where p' = "p\<lparr>timeout := None, readyToFlush := True\<rparr>"])
         simp_all
    ultimately show ?thesis by simp
  next
    case (Some stp)
    show ?thesis
    proof (cases "activeBatchKey stp = k")
      case True
      have "requestFlush store k = flushPending store k"
        using \<open>pendingInbounds store k = Some p\<close> Some True by (simp add: requestFlush_def)
      with inv_flush_active [OF inv Some True] show ?thesis by simp
    next
      case False
      have "fst (requestFlush store k) = store\<lparr>pendingInbounds := (pendingInbounds store)(k \<mapsto>
                         p\<lparr>timeout := None, readyToFlush := True\<rparr>)\<rparr>"
        using \<open>pendingInbounds store k = Some p\<close> Some False by (simp add: requestFlush_def)
      moreover have "store_inv (store\<lparr>pendingInbounds := (pendingInbounds store)(k \<mapsto>
                         p\<lparr>timeout := None, readyToFlush := True\<rparr>)\<rparr>)"
        by (rule upd_pending_inv [OF inv \<open>pendingInbounds store k = Some p\<close>,
              where p' = "p\<lparr>timeout := None, readyToFlush := True\<rparr>"])
           simp_all
      ultimately show ?thesis by simp
    qed
  qed
qed

lemma inv_onStreamFinished:
  assumes inv: "store_inv store"
  shows "store_inv (fst (onStreamFinished store sid))"
proof (cases "active_conversation_of store sid")
  case None
  then show ?thesis using inv by (simp add: onStreamFinished_other)
next
  case (Some a)
  obtain ck conv where a: "a = (ck, conv)" by (cases a)
  note belongs = Some [unfolded a]
  have c: "conversationState store ck = Some conv"
    using belongs by (auto simp: active_conversation_of_def split: option.splits if_splits)
  have del: "store_inv (store\<lparr>conversationState := (conversationState store)(ck := None)\<rparr>)"
    by (rule delete_conv_inv [OF inv]) simp_all
  show ?thesis
  proof (cases "queue conv")
    case Nil
    with del show ?thesis by (simp add: onStreamFinished_idle [OF belongs Nil])
  next
    case (Cons nxt rest)
    show ?thesis
    proof (cases "nxt = []")
      case True
      have "onStreamFinished store sid =
          (store\<lparr>conversationState := (conversationState store)(ck := None)\<rparr>, [])"
        using belongs Cons True
        by (auto simp: active_conversation_of_def onStreamFinished_def split: option.splits if_splits)
      with del show ?thesis by simp
    next
      case False
      define store1 where "store1 = store\<lparr>conversationState := (conversationState store)(ck \<mapsto>
                     conv\<lparr>activeBatchKey := nxt, queue := rest\<rparr>)\<rparr>"
      have inv1: "store_inv store1"
        by (rule promote_inv(1) [OF inv c Cons]) (simp_all add: store1_def)
      have c1: "conversationState store1 ck = Some (conv\<lparr>activeBatchKey := nxt, queue := rest\<rparr>)"
        by (simp add: store1_def)
      have "fst (onStreamFinished store sid) = store1 \<or>
            fst (onStreamFinished store sid) = fst (flushPending store1 nxt)"
        unfolding onStreamFinished_promote [OF belongs Cons False] Let_def store1_def [symmetric]
        by (auto simp: store1_def split: option.splits)
      moreover have "store_inv (fst (flushPending store1 nxt))"
        by (rule inv_flush_active [OF inv1 c1]) simp
      ultimately show ?thesis using inv1 by auto
    qed
  qed
qed

lemma inv_updateStream:
  assumes inv: "store_inv store" and mono: "\<And>s. started s \<Longrightarrow> started (mutator s)"
  shows "store_inv (updateStream store sid mutator now)"
proof (cases "streams store sid")
  case None
  then show ?thesis using inv by (simp add: updateStream_def)
next
  case (Some s)
  have "updateStream store sid mutator now =
      store\<lparr>streams := (streams store)(sid \<mapsto> (mutator s)\<lparr>updatedAt := now\<rparr>)\<rparr>"
    using Some by (simp add: updateStream_def)
  moreover have "store_inv (store\<lparr>streams := (streams store)(sid \<mapsto> (mutator s)\<lparr>updatedAt := now\<rparr>)\<rparr>)"
    by (rule upd_stream_inv [OF inv Some, where s' = "(mutator s)\<lparr>updatedAt := now\<rparr>"])
       (simp_all add: mono)
  ultimately show ?thesis by simp
qed

lemma inv_createStream:
  assumes inv: "store_inv store" and fresh: "fresh_stream_id store r"
  shows "store_inv (fst (createStream store msgid None None r now))"
  by (rule new_stream_inv [OF inv, where r = r and
        snew = "\<lparr>st_streamId = r, st_msgid = msgid, st_conversationKey = None,
            st_batchKey = None, createdAt = now, updatedAt = now, started = False,
            finished = False, content = [], images = None, fallbackMode = None\<rparr>"])
     (use fresh in \<open>simp_all add: createStream_fields truthy_def fresh_stream_id_def\<close>)

lemma inv_new_store: "store_inv new_store"
  by (simp add: store_inv_def pending_inv_def batch_map_inv_def conv_inv_def queue_inv_def new_store_def)

lemma reachable_inv: "reachable conv_key_ok store \<Longrightarrow> store_inv store"
proof (induction rule: reachable.induct)
  case start
  show ?case by (rule inv_new_store)
next
  case (admit store conversationKey random_hex target msg msgContent nonce timestamp debounce now)
  then show ?case by (simp add: inv_add)
next
  case (timer store batchKey)
  then show ?case by (simp add: inv_requestFlush)
next
  case (finish store streamId)
  then show ?case by (simp add: inv_onStreamFinished)
next
  case (update store mutator streamId now)
  then show ?case by (simp add: inv_updateStream)
next
  case (create store random_hex msgid now)
  then show ?case by (simp add: inv_createStream)
next
  case (map_msgid store msgid streamId)
  then show ?case
    by (auto simp: setStreamIdForMsgId_def Let_def elim: store_inv_same_fields)
next
  case (add_ack store batchStreamId ackStreamId)
  then show ?case
    by (auto simp: addAckStreamForBatch_def Let_def elim: store_inv_same_fields)
next
  case (drain_ack store batchStreamId)
  then show ?case
    by (auto simp: drainAckStreamsForBatch_def Let_def elim: store_inv_same_fields)
qed

lemma queued_pending_reachable:
  assumes inv: "store_inv store" and c: "conversationState store ck = Some st"
  shows "queued_pending store st =
     (if queue st = [] then None
      else Some (hd (queue st), the (pendingInbounds store (hd (queue st)))))"
    and "queue st \<noteq> [] \<Longrightarrow> pendingInbounds store (hd (queue st)) \<noteq> None"
proof -
  note i = store_invD [OF inv]
  note sh = conv_invD [OF i(3) c]
  show p: "pendingInbounds store (hd (queue st)) \<noteq> None" if "queue st \<noteq> []"
    using queue_invD(1) [OF i(4) c that] .
  show "queued_pending store st =
     (if queue st = [] then None
      else Some (hd (queue st), the (pendingInbounds store (hd (queue st)))))"
  proof (cases "queue st = []")
    case True
    then show ?thesis by (simp add: queued_pending_def)
  next
    case False
    from conv_shape_queue(1) [OF sh(2) False]
    have q: "queue st = [queued_key ck (nextSeq st - 1)]" .
    from p [OF False] obtain e where "pendingInbounds store (hd (queue st)) = Some e" by auto
    then show ?thesis
      using False q by (simp add: queued_pending_def queued_key_not_empty)
  qed
qed

section \<open>Invariants of the stores with arbitrary conversation keys\<close>

lemma batch_invD:
  assumes "batch_inv store"
  shows "pendingInbounds store k = Some p \<Longrightarrow> is_stream_id (p_streamId p)"
    and "pendingInbounds store k = Some p \<Longrightarrow> streams store (p_streamId p) \<noteq> None"
    and "pendingInbounds store k = Some p \<Longrightarrow>
           streamIdToBatchKey store (p_streamId p) = (if k = [] then None else Some k)"
    and "streamIdToBatchKey store sid = Some k \<Longrightarrow> streams store sid \<noteq> None"
    and "conversationState store c = Some st \<Longrightarrow> q \<in> set (queue st) \<Longrightarrow> \<exists>n. q = queued_key c n"
  using assms unfolding batch_inv_def waiting_inv_def batch_map_inv_def queue_keys_inv_def
  by blast+

lemma batch_inv_same_fields:
  assumes "batch_inv store"
    and "streams store' = streams store" "pendingInbounds store' = pendingInbounds store"
      "conversationState store' = conversationState store"
      "streamIdToBatchKey store' = streamIdToBatchKey store"
  shows "batch_inv store'"
proof -
  have "batch_inv store' = batch_inv store"
    unfolding batch_inv_def waiting_inv_def batch_map_inv_def queue_keys_inv_def assms(2-5) ..
  with assms(1) show ?thesis by simp
qed

lemma batch_upd_pending:
  assumes "batch_inv store" "pendingInbounds store k = Some p" "p_streamId p' = p_streamId p"
  shows "batch_inv (store\<lparr>pendingInbounds := (pendingInbounds store)(k \<mapsto> p')\<rparr>)"
  using assms unfolding batch_inv_def waiting_inv_def batch_map_inv_def queue_keys_inv_def
  by auto

lemma batch_del_pending:
  assumes "batch_inv store"
  shows "batch_inv (store\<lparr>pendingInbounds := (pendingInbounds store)(k := None)\<rparr>)"
  using assms unfolding batch_inv_def waiting_inv_def batch_map_inv_def queue_keys_inv_def
  by auto

lemma batch_conv:
  assumes "batch_inv store"
    and "\<And>st q. cs = Some st \<Longrightarrow> q \<in> set (queue st) \<Longrightarrow> \<exists>n. q = queued_key ck n"
  shows "batch_inv (store\<lparr>conversationState := (conversationState store)(ck := cs)\<rparr>)"
  using assms unfolding batch_inv_def waiting_inv_def batch_map_inv_def queue_keys_inv_def
  by auto

lemma batch_upd_stream:
  assumes "batch_inv store" "streams store sid = Some s"
  shows "batch_inv (store\<lparr>streams := (streams store)(sid \<mapsto> s')\<rparr>)"
  using assms unfolding batch_inv_def waiting_inv_def batch_map_inv_def queue_keys_inv_def
  by auto

lemma batch_new_stream:
  assumes "batch_inv store"
    and "streams store' = (streams store)(r \<mapsto> snew)"
    and "pendingInbounds store' = pendingInbounds store"
    and "conversationState store' = conversationState store"
    and "streamIdToBatchKey store' = streamIdToBatchKey store"
  shows "batch_inv store'"
  using assms(1) unfolding batch_inv_def waiting_inv_def batch_map_inv_def queue_keys_inv_def assms(2-5)
  by auto

lemma batch_new_batch:
  assumes "batch_inv store" and "is_stream_id r" "streams store r = None"
    and "streams store' = (streams store)(r \<mapsto> snew)"
    and "streamIdToBatchKey store' =
           (if bk = [] then streamIdToBatchKey store else (streamIdToBatchKey store)(r \<mapsto> bk))"
    and "pendingInbounds store' = (pendingInbounds store)(bk \<mapsto> np)"
    and "p_streamId np = r"
    and "conversationState store' = (conversationState store)(ck \<mapsto> st')"
    and "\<And>q. q \<in> set (queue st') \<Longrightarrow> \<exists>n. q = queued_key ck n"
  shows "batch_inv store'"
proof -
  note d = batch_invD [OF assms(1)]
  have none: "streamIdToBatchKey store r = None"
    using d(4) [of r] assms(3) by (cases "streamIdToBatchKey store r") auto
  have other: "p_streamId p \<noteq> r" if "pendingInbounds store k = Some p" for k p
    using d(2) [OF that] assms(3) by auto
  have "waiting_inv store'"
    unfolding waiting_inv_def
  proof (intro allI impI)
    fix k p
    assume kp: "pendingInbounds store' k = Some p"
    show "is_stream_id (p_streamId p) \<and> streams store' (p_streamId p) \<noteq> None \<and>
        streamIdToBatchKey store' (p_streamId p) = (if k = [] then None else Some k)"
    proof (cases "k = bk")
      case True
      with kp have "p = np" by (simp add: assms(6))
      then show ?thesis
        using True assms(2,7) none by (simp add: assms(4,5))
    next
      case False
      with kp have old: "pendingInbounds store k = Some p" by (simp add: assms(6))
      from d(1-3) [OF old] other [OF old] show ?thesis
        by (simp add: assms(4,5))
    qed
  qed
  moreover have "batch_map_inv store'"
    unfolding batch_map_inv_def assms(4-6)
    using d(4) by (auto split: if_splits)
  moreover have "queue_keys_inv store'"
    unfolding queue_keys_inv_def assms(8)
    using d(5) assms(9) by (auto split: if_splits)
  ultimately show ?thesis by (simp add: batch_inv_def)
qed

lemma batch_add:
  assumes inv: "batch_inv store" and fresh: "fresh_stream_id store r"
  shows "batch_inv (fst (addPendingMessage store ck target msg msgContent nonce timestamp debounce r now))"
proof -
  have fr: "is_stream_id r" "streams store r = None"
    using fresh by (simp_all add: fresh_stream_id_def)
  show ?thesis
  proof (cases "conversationState store ck")
    case None
    show ?thesis
      unfolding add_first [OF None] fst_conv
      by (rule batch_new_batch [OF inv fr, where bk = ck and ck = ck and
            st' = "\<lparr>activeBatchKey = ck, queue = [], nextSeq = 1\<rparr>" and
            np = "new_pending r ck ck target msg msgContent nonce timestamp now (debounce_of debounce)" and
            snew = "\<lparr>st_streamId = r, st_msgid = msg_msgid msg, st_conversationKey = Some ck,
                st_batchKey = Some ck, createdAt = now, updatedAt = now, started = False,
                finished = False, content = [], images = None, fallbackMode = None\<rparr>"])
         (simp_all add: createStream_fields truthy_def new_pending_stream)
  next
    case (Some st)
    show ?thesis
    proof (cases "active_open store ck st")
      case True
      then obtain ap where ap: "pendingInbounds store (activeBatchKey st) = Some ap"
        by (auto simp: active_open_def split: option.splits)
      show ?thesis
        unfolding add_merge_active [OF Some True ap] fst_conv
        by (rule batch_upd_pending [OF inv ap]) (simp add: merged_pending_stream)
    next
      case False
      show ?thesis
      proof (cases "queued_pending store st")
        case (Some qe)
        obtain q e where qe: "qe = (q, e)" by (cases qe)
        have e: "pendingInbounds store q = Some e"
          using Some unfolding qe queued_pending_def
          by (auto split: list.splits if_splits option.splits)
        show ?thesis
          unfolding add_not_open [OF \<open>conversationState store ck = Some st\<close> False] Some qe
          by (simp, rule batch_upd_pending [OF inv e]) (simp add: merged_pending_stream)
      next
        case None
        define bk where "bk = queued_key ck (nextSeq st)"
        define st' where "st' = st\<lparr>nextSeq := nextSeq st + 1, queue := [bk]\<rparr>"
        define store' where "store' = (fst (createStream
             (store\<lparr>conversationState := (conversationState store)(ck \<mapsto> st')\<rparr>)
             (msg_msgid msg) (Some ck) (Some bk) r now))\<lparr>
          pendingInbounds := (pendingInbounds store)(bk \<mapsto>
             new_pending r ck bk target msg msgContent nonce timestamp now (debounce_of debounce))\<rparr>"
        have res: "fst (addPendingMessage store ck target msg msgContent nonce timestamp debounce r now) = store'"
          unfolding add_not_open [OF \<open>conversationState store ck = Some st\<close> False] None
          by (simp add: store'_def st'_def bk_def)
        have bk_ne: "bk \<noteq> []" by (simp add: bk_def queued_key_not_empty)
        have fields: "streams store' = (streams store)(r \<mapsto>
              \<lparr>st_streamId = r, st_msgid = msg_msgid msg, st_conversationKey = Some ck,
                st_batchKey = Some bk, createdAt = now, updatedAt = now, started = False,
                finished = False, content = [], images = None, fallbackMode = None\<rparr>)"
            "streamIdToBatchKey store' =
               (if bk = [] then streamIdToBatchKey store else (streamIdToBatchKey store)(r \<mapsto> bk))"
            "pendingInbounds store' = (pendingInbounds store)(bk \<mapsto>
               new_pending r ck bk target msg msgContent nonce timestamp now (debounce_of debounce))"
            "conversationState store' = (conversationState store)(ck \<mapsto> st')"
          by (simp_all add: store'_def createStream_fields truthy_def bk_ne)
        have "batch_inv store'"
          by (rule batch_new_batch [OF inv fr fields(1,2,3) new_pending_stream fields(4)])
             (auto simp: st'_def bk_def)
        then show ?thesis by (simp add: res)
      qed
    qed
  qed
qed

lemma batch_requestFlush:
  assumes inv: "batch_inv store"
  shows "batch_inv (fst (requestFlush store k))"
proof (cases "pendingInbounds store k")
  case None
  then show ?thesis using inv by (simp add: requestFlush_def)
next
  case (Some p)
  have "fst (requestFlush store k) = fst (flushPending store k) \<or>
        fst (requestFlush store k) = store\<lparr>pendingInbounds := (pendingInbounds store)(k \<mapsto>
                         p\<lparr>timeout := None, readyToFlush := True\<rparr>)\<rparr>"
    using Some by (auto simp: requestFlush_def split: option.splits)
  moreover have "batch_inv (fst (flushPending store k))"
    unfolding flushPending_store by (rule batch_del_pending [OF inv])
  moreover have "batch_inv (store\<lparr>pendingInbounds := (pendingInbounds store)(k \<mapsto>
                         p\<lparr>timeout := None, readyToFlush := True\<rparr>)\<rparr>)"
    by (rule batch_upd_pending [OF inv Some]) simp
  ultimately show ?thesis by auto
qed

lemma batch_onStreamFinished:
  assumes inv: "batch_inv store"
  shows "batch_inv (fst (onStreamFinished store sid))"
proof (cases "active_conversation_of store sid")
  case None
  then show ?thesis using inv by (simp add: onStreamFinished_other)
next
  case (Some a)
  obtain ck conv where a: "a = (ck, conv)" by (cases a)
  note belongs = Some [unfolded a]
  have c: "conversationState store ck = Some conv"
    using belongs by (auto simp: active_conversation_of_def split: option.splits if_splits)
  have del: "batch_inv (store\<lparr>conversationState := (conversationState store)(ck := None)\<rparr>)"
    by (rule batch_conv [OF inv]) simp
  show ?thesis
  proof (cases "queue conv")
    case Nil
    with del show ?thesis by (simp add: onStreamFinished_idle [OF belongs Nil])
  next
    case (Cons nxt rest)
    show ?thesis
    proof (cases "nxt = []")
      case True
      have "onStreamFinished store sid =
          (store\<lparr>conversationState := (conversationState store)(ck := None)\<rparr>, [])"
        using belongs Cons True
        by (auto simp: active_conversation_of_def onStreamFinished_def split: option.splits if_splits)
      with del show ?thesis by simp
    next
      case False
      define store1 where "store1 = store\<lparr>conversationState := (conversationState store)(ck \<mapsto>
                     conv\<lparr>activeBatchKey := nxt, queue := rest\<rparr>)\<rparr>"
      have inv1: "batch_inv store1"
        unfolding store1_def
        by (rule batch_conv [OF inv]) (use batch_invD(5) [OF inv c] Cons in auto)
      have "fst (onStreamFinished store sid) = store1 \<or>
            fst (onStreamFinished store sid) = fst (flushPending store1 nxt)"
        unfolding onStreamFinished_promote [OF belongs Cons False] Let_def store1_def [symmetric]
        by (auto simp: store1_def split: option.splits)
      moreover have "batch_inv (fst (flushPending store1 nxt))"
        unfolding flushPending_store by (rule batch_del_pending [OF inv1])
      ultimately show ?thesis using inv1 by auto
    qed
  qed
qed

lemma batch_updateStream:
  assumes inv: "batch_inv store"
  shows "batch_inv (updateStream store sid mutator now)"
proof (cases "streams store sid")
  case None
  then show ?thesis using inv by (simp add: updateStream_def)
next
  case (Some s)
  have "updateStream store sid mutator now =
      store\<lparr>streams := (streams store)(sid \<mapsto> (mutator s)\<lparr>updatedAt := now\<rparr>)\<rparr>"
    using Some by (simp add: updateStream_def)
  with batch_upd_stream [OF inv Some] show ?thesis by simp
qed

lemma batch_createStream:
  assumes inv: "batch_inv store"
  shows "batch_inv (fst (createStream store msgid None None r now))"
  by (rule batch_new_stream [OF inv, where r = r and
        snew = "\<lparr>st_streamId = r, st_msgid = msgid, st_conversationKey = None,
            st_batchKey = None, createdAt = now, updatedAt = now, started = False,
            finished = False, content = [], images = None, fallbackMode = None\<rparr>"])
     (simp_all add: createStream_fields truthy_def)

lemma batch_new_store: "batch_inv new_store"
  by (simp add: batch_inv_def waiting_inv_def batch_map_inv_def queue_keys_inv_def new_store_def)

lemma reachable_batch_inv: "reachable ok store \<Longrightarrow> batch_inv store"
proof (induction rule: reachable.induct)
  case start
  show ?case by (rule batch_new_store)
next
  case (admit store conversationKey random_hex target msg msgContent nonce timestamp debounce now)
  then show ?case by (simp add: batch_add)
next
  case (timer store batchKey)
  then show ?case by (simp add: batch_requestFlush)
next
  case (finish store streamId)
  then show ?case by (simp add: batch_onStreamFinished)
next
  case (update store mutator streamId now)
  then show ?case by (simp add: batch_updateStream)
next
  case (create store random_hex msgid now)
  then show ?case by (simp add: batch_createStream)
next
  case (map_msgid store msgid streamId)
  then show ?case
    by (auto simp: setStreamIdForMsgId_def Let_def elim: batch_inv_same_fields)
next
  case (add_ack store batchStreamId ackStreamId)
  then show ?case
    by (auto simp: addAckStreamForBatch_def Let_def elim: batch_inv_same_fields)
next
  case (drain_ack store batchStreamId)
  then show ?case
    by (auto simp: drainAckStreamsForBatch_def Let_def elim: batch_inv_same_fields)
qed

lemma queued_pending_SomeD:
  assumes "queued_pending store st = Some (q, e)"
  shows "queue st \<noteq> []" "q = hd (queue st)" "q \<noteq> []" "pendingInbounds store q = Some e"
  using assms unfolding queued_pending_def
  by (auto split: list.splits if_splits option.splits)

lemma add_merged:
  assumes inv: "batch_inv store"
    and st: "snd (snd (addPendingMessage store ck target msg msgContent nonce timestamp debounce r now))
               \<in> {active_merged, queued_merged}"
  shows "\<exists>k p. pendingInbounds store k = Some p \<and>
     fst (addPendingMessage store ck target msg msgContent nonce timestamp debounce r now) =
        store\<lparr>pendingInbounds := (pendingInbounds store)(k \<mapsto>
            merged_pending p msgContent (msg_msgid msg) (debounce_of debounce))\<rparr> \<and>
     fst (snd (addPendingMessage store ck target msg msgContent nonce timestamp debounce r now)) =
        p_streamId p"
proof (cases "conversationState store ck")
  case None
  with st show ?thesis by (simp add: add_first)
next
  case (Some cs)
  show ?thesis
  proof (cases "active_open store ck cs")
    case True
    then obtain ap where ap: "pendingInbounds store (activeBatchKey cs) = Some ap"
      by (auto simp: active_open_def split: option.splits)
    show ?thesis
      unfolding add_merge_active [OF Some True ap] using ap by auto
  next
    case False
    show ?thesis
    proof (cases "queued_pending store cs")
      case None
      with st show ?thesis by (simp add: add_not_open [OF Some False])
    next
      case qp: (Some qe)
      obtain q e where qe: "qe = (q, e)" by (cases qe)
      note q = queued_pending_SomeD [OF qp [unfolded qe]]
      show ?thesis
        unfolding add_not_open [OF Some False] qp qe using q(4) by auto
    qed
  qed
qed

lemma storeActiveReply_store: "streamStore (storeActiveReply ms sid u p now) = streamStore ms"
  by (simp add: storeActiveReply_def Let_def split: option.splits)

lemma merged_placeholder_trim: "trimmed_or (Some mergedQueuedPlaceholder) (js ''1'') = mergedQueuedPlaceholder"
  by (simp add: trimmed_or_def trim_def mergedQueuedPlaceholder_def js_whitespace_def)

lemma ack_tail:
  assumes r2: "is_stream_id r2" and sid: "is_stream_id sid"
  shows "(let (store2, ackStreamId) =
                 createStream store1 (if truthy (msg_msgid msg) then msg_msgid msg else None)
                   None None r2 now;
              store3 = updateStream store2 ackStreamId
                  (\<lambda>s. s\<lparr>finished := False, started := True,
                           content := mergedQueuedPlaceholder\<rparr>) now;
              store4 = (case msg_msgid msg of
                           None \<Rightarrow> store3
                         | Some m \<Rightarrow> if m \<noteq> [] then setStreamIdForMsgId store3 m ackStreamId
                                     else store3);
              store5 = addAckStreamForBatch store4 sid ackStreamId
          in ackStreamId = r2 \<and>
             (\<exists>ack. streams store5 r2 = Some ack \<and> started ack \<and> \<not> finished ack \<and>
                  content ack = mergedQueuedPlaceholder \<and> st_batchKey ack = None) \<and>
             (\<forall>m. msg_msgid msg = Some m \<longrightarrow> m \<noteq> [] \<longrightarrow> getStreamByMsgId store5 m = Some r2) \<and>
             batchStreamIdToAckStreamIds store5 sid =
               Some ((case batchStreamIdToAckStreamIds store1 sid of None \<Rightarrow> [] | Some l \<Rightarrow> l) @ [r2]) \<and>
             pendingInbounds store5 = pendingInbounds store1 \<and>
             conversationState store5 = conversationState store1)"
proof -
  note t2 = stream_id_trim [OF r2]
  note ts = stream_id_trim [OF sid]
  define mid where "mid = (if truthy (msg_msgid msg) then msg_msgid msg else None)"
  define store2 where "store2 = fst (createStream store1 mid None None r2 now)"
  define store3 where "store3 = updateStream store2 r2
                  (\<lambda>s. s\<lparr>finished := False, started := True,
                           content := mergedQueuedPlaceholder\<rparr>) now"
  define store4 where "store4 = (case msg_msgid msg of
                           None \<Rightarrow> store3
                         | Some m \<Rightarrow> if m \<noteq> [] then setStreamIdForMsgId store3 m r2
                                     else store3)"
  define store5 where "store5 = addAckStreamForBatch store4 sid r2"
  have c: "createStream store1 mid None None r2 now = (store2, r2)"
    by (simp add: store2_def createStream_def)
  have f2: "streams store2 r2 = Some \<lparr>st_streamId = r2, st_msgid = mid, st_conversationKey = None,
            st_batchKey = None, createdAt = now, updatedAt = now, started = False,
            finished = False, content = [], images = None, fallbackMode = None\<rparr>"
      "msgidToStreamId store2 = (if truthy mid then (msgidToStreamId store1)(the mid \<mapsto> r2)
                                 else msgidToStreamId store1)"
      "batchStreamIdToAckStreamIds store2 = batchStreamIdToAckStreamIds store1"
      "pendingInbounds store2 = pendingInbounds store1"
      "conversationState store2 = conversationState store1"
    by (simp_all add: store2_def createStream_fields)
  have f3: "streams store3 r2 = Some \<lparr>st_streamId = r2, st_msgid = mid, st_conversationKey = None,
            st_batchKey = None, createdAt = now, updatedAt = now, started = True,
            finished = False, content = mergedQueuedPlaceholder, images = None, fallbackMode = None\<rparr>"
      "msgidToStreamId store3 = msgidToStreamId store2"
      "batchStreamIdToAckStreamIds store3 = batchStreamIdToAckStreamIds store2"
      "pendingInbounds store3 = pendingInbounds store2"
      "conversationState store3 = conversationState store2"
    by (simp_all add: store3_def updateStream_def f2(1))
  have f4: "streams store4 = streams store3"
      "batchStreamIdToAckStreamIds store4 = batchStreamIdToAckStreamIds store3"
      "pendingInbounds store4 = pendingInbounds store3"
      "conversationState store4 = conversationState store3"
    by (simp_all add: store4_def setStreamIdForMsgId_def Let_def split: option.splits)
  have m4: "msgidToStreamId store4 m = Some r2" if "msg_msgid msg = Some m" "m \<noteq> []" for m
  proof -
    have "truthy mid" "the mid = m" using that by (simp_all add: mid_def truthy_def)
    then have "msgidToStreamId store3 m = Some r2" by (simp add: f3(2) f2(2))
    then show ?thesis
      using that t2 by (simp add: store4_def setStreamIdForMsgId_def Let_def)
  qed
  have f5: "streams store5 = streams store4" "msgidToStreamId store5 = msgidToStreamId store4"
      "pendingInbounds store5 = pendingInbounds store4"
      "conversationState store5 = conversationState store4"
      "batchStreamIdToAckStreamIds store5 sid =
         Some ((case batchStreamIdToAckStreamIds store4 sid of None \<Rightarrow> [] | Some l \<Rightarrow> l) @ [r2])"
    using t2 ts by (simp_all add: store5_def addAckStreamForBatch_def Let_def)
  have "(\<exists>ack. streams store5 r2 = Some ack \<and> started ack \<and> \<not> finished ack \<and>
                  content ack = mergedQueuedPlaceholder \<and> st_batchKey ack = None) \<and>
             (\<forall>m. msg_msgid msg = Some m \<longrightarrow> m \<noteq> [] \<longrightarrow> getStreamByMsgId store5 m = Some r2) \<and>
             batchStreamIdToAckStreamIds store5 sid =
               Some ((case batchStreamIdToAckStreamIds store1 sid of None \<Rightarrow> [] | Some l \<Rightarrow> l) @ [r2]) \<and>
             pendingInbounds store5 = pendingInbounds store1 \<and>
             conversationState store5 = conversationState store1"
    using m4 by (simp add: f5 f4 f3 f2(3-) getStreamByMsgId_def)
  then show ?thesis
    unfolding mid_def [symmetric] c Let_def prod.case store3_def [symmetric] store4_def [symmetric]
      store5_def [symmetric]
    by simp
qed

section \<open>The length of the queue\<close>

lemma short_queue_same:
  assumes "short_queue_inv store" "conversationState store' = conversationState store"
  shows "short_queue_inv store'"
  using assms by (simp add: short_queue_inv_def)

lemma short_queue_upd:
  assumes "short_queue_inv store"
    and "conversationState store' = (conversationState store)(ck := cs)"
    and "\<And>st. cs = Some st \<Longrightarrow> length (queue st) \<le> 1"
  shows "short_queue_inv store'"
  using assms by (auto simp: short_queue_inv_def)

lemma flushPending_conv:
  "conversationState (fst (flushPending store k)) = conversationState store"
  by (simp add: flushPending_store)

lemma requestFlush_conv:
  "conversationState (fst (requestFlush store k)) = conversationState store"
  by (auto simp: requestFlush_def Let_def flushPending_conv split: option.splits)

lemma short_queue_add:
  assumes inv: "short_queue_inv store"
  shows "short_queue_inv (fst (addPendingMessage store ck target msg msgContent nonce timestamp debounce r now))"
proof (cases "conversationState store ck")
  case None
  show ?thesis
    by (rule short_queue_upd [OF inv, where ck = ck and
          cs = "Some \<lparr>activeBatchKey = ck, queue = [], nextSeq = 1\<rparr>"])
       (simp_all add: add_first [OF None])
next
  case (Some st)
  show ?thesis
  proof (cases "active_open store ck st")
    case True
    then obtain ap where ap: "pendingInbounds store (activeBatchKey st) = Some ap"
      by (auto simp: active_open_def split: option.splits)
    show ?thesis
      by (rule short_queue_same [OF inv]) (simp add: add_merge_active [OF Some True ap])
  next
    case False
    show ?thesis
    proof (cases "queued_pending store st")
      case qp: (Some qe)
      obtain q e where qe: "qe = (q, e)" by (cases qe)
      show ?thesis
        by (rule short_queue_same [OF inv]) (simp add: add_not_open [OF Some False] qp qe)
    next
      case None
      show ?thesis
        by (rule short_queue_upd [OF inv, where ck = ck and
              cs = "Some (st\<lparr>nextSeq := nextSeq st + 1, queue := [queued_key ck (nextSeq st)]\<rparr>)"])
           (simp_all add: add_not_open [OF Some False] None createStream_fields)
    qed
  qed
qed

lemma short_queue_onStreamFinished:
  assumes inv: "short_queue_inv store"
  shows "short_queue_inv (fst (onStreamFinished store sid))"
proof (cases "active_conversation_of store sid")
  case None
  then show ?thesis using inv by (simp add: onStreamFinished_other)
next
  case (Some a)
  obtain ck conv where a: "a = (ck, conv)" by (cases a)
  note belongs = Some [unfolded a]
  have c: "conversationState store ck = Some conv"
    using belongs by (auto simp: active_conversation_of_def split: option.splits if_splits)
  have len: "length (queue conv) \<le> 1"
    using inv c by (simp add: short_queue_inv_def)
  have del: "short_queue_inv (store\<lparr>conversationState := (conversationState store)(ck := None)\<rparr>)"
    by (rule short_queue_upd [OF inv, where ck = ck and cs = None]) simp_all
  show ?thesis
  proof (cases "queue conv")
    case Nil
    with del show ?thesis by (simp add: onStreamFinished_idle [OF belongs Nil])
  next
    case (Cons nxt rest)
    show ?thesis
    proof (cases "nxt = []")
      case True
      have "onStreamFinished store sid =
          (store\<lparr>conversationState := (conversationState store)(ck := None)\<rparr>, [])"
        using belongs Cons True
        by (auto simp: active_conversation_of_def onStreamFinished_def split: option.splits if_splits)
      with del show ?thesis by simp
    next
      case False
      show ?thesis
        by (rule short_queue_upd [OF inv, where ck = ck and
              cs = "Some (conv\<lparr>activeBatchKey := nxt, queue := rest\<rparr>)"])
           (use len Cons in \<open>auto simp: onStreamFinished_promote [OF belongs Cons False] Let_def
              flushPending_conv split: option.splits\<close>)
    qed
  qed
qed

lemma reachable_short_queue: "reachable ok store \<Longrightarrow> short_queue_inv store"
proof (induction rule: reachable.induct)
  case start
  show ?case by (simp add: short_queue_inv_def new_store_def)
next
  case (admit store conversationKey random_hex target msg msgContent nonce timestamp debounce now)
  then show ?case by (simp add: short_queue_add)
next
  case (timer store batchKey)
  then show ?case by (auto elim: short_queue_same simp: requestFlush_conv)
next
  case (finish store streamId)
  then show ?case by (simp add: short_queue_onStreamFinished)
next
  case (update store mutator streamId now)
  then show ?case
    by (auto elim!: short_queue_same simp: updateStream_def split: option.splits)
next
  case (create store random_hex msgid now)
  then show ?case by (auto elim!: short_queue_same simp: createStream_fields)
next
  case (map_msgid store msgid streamId)
  then show ?case
    by (auto simp: setStreamIdForMsgId_def Let_def elim!: short_queue_same)
next
  case (add_ack store batchStreamId ackStreamId)
  then show ?case
    by (auto simp: addAckStreamForBatch_def Let_def elim!: short_queue_same)
next
  case (drain_ack store batchStreamId)
  then show ?case
    by (auto simp: drainAckStreamsForBatch_def Let_def elim!: short_queue_same)
qed

text \<open>With any conversation keys, a queue never holds more than one batch key.\<close>

lemma queue_length_reachable:
  assumes "reachable ok store" "conversationState store conversationKey = Some st"
  shows "length (queue st) \<le> 1"
  using reachable_short_queue [OF assms(1)] assms(2) by (simp add: short_queue_inv_def)

section \<open>The example stores\<close>

lemma example_id_ok: "is_hex_digit d \<Longrightarrow> is_stream_id (example_id d)"
  by (simp add: is_stream_id_def example_id_def list_all_iff)

lemma example_id_eq: "example_id d = example_id e \<longleftrightarrow> d = e"
  by (simp add: example_id_def)

lemma hex_digits: "is_hex_digit 0x31" "is_hex_digit 0x32" "is_hex_digit 0x33" "is_hex_digit 0x34"
    "is_hex_digit 0x35"
  by (simp_all add: is_hex_digit_def)

lemma text_message_msgid: "msg_msgid (text_message mid) = Some (js mid)"
  by (simp add: text_message_def inbound_def)

lemma one_batch_fields:
  "conversationState one_batch_store =
     [js ''wecom:default:U:U'' \<mapsto>
        \<lparr>activeBatchKey = js ''wecom:default:U:U'', queue = [], nextSeq = 1\<rparr>]"
  "pendingInbounds one_batch_store =
     [js ''wecom:default:U:U'' \<mapsto>
        new_pending (example_id 0x31) (js ''wecom:default:U:U'') (js ''wecom:default:U:U'')
          example_target (text_message ''M1'') (js ''M1'') (js ''n'') (js ''t'') 0 DEFAULT_DEBOUNCE_MS]"
  "streams one_batch_store =
     [example_id 0x31 \<mapsto> \<lparr>st_streamId = example_id 0x31, st_msgid = Some (js ''M1''),
        st_conversationKey = Some (js ''wecom:default:U:U''),
        st_batchKey = Some (js ''wecom:default:U:U''), createdAt = 0, updatedAt = 0,
        started = False, finished = False, content = [], images = None, fallbackMode = None\<rparr>]"
  "streamIdToBatchKey one_batch_store = [example_id 0x31 \<mapsto> js ''wecom:default:U:U'']"
  "msgidToStreamId one_batch_store = [js ''M1'' \<mapsto> example_id 0x31]"
  "batchStreamIdToAckStreamIds one_batch_store = Map.empty"
proof -
  have n: "conversationState new_store (js ''wecom:default:U:U'') = None"
    by (simp add: new_store_def)
  have ne: "js ''wecom:default:U:U'' \<noteq> []" "js ''M1'' \<noteq> []" by (simp_all add: js_def)
  note r = add_first [OF n]
  show "conversationState one_batch_store =
     [js ''wecom:default:U:U'' \<mapsto>
        \<lparr>activeBatchKey = js ''wecom:default:U:U'', queue = [], nextSeq = 1\<rparr>]"
    unfolding one_batch_store_def example_admit_def r by (simp add: new_store_def)
  show "pendingInbounds one_batch_store =
     [js ''wecom:default:U:U'' \<mapsto>
        new_pending (example_id 0x31) (js ''wecom:default:U:U'') (js ''wecom:default:U:U'')
          example_target (text_message ''M1'') (js ''M1'') (js ''n'') (js ''t'') 0 DEFAULT_DEBOUNCE_MS]"
    unfolding one_batch_store_def example_admit_def r by (simp add: new_store_def debounce_of_def)
  show "streams one_batch_store =
     [example_id 0x31 \<mapsto> \<lparr>st_streamId = example_id 0x31, st_msgid = Some (js ''M1''),
        st_conversationKey = Some (js ''wecom:default:U:U''),
        st_batchKey = Some (js ''wecom:default:U:U''), createdAt = 0, updatedAt = 0,
        started = False, finished = False, content = [], images = None, fallbackMode = None\<rparr>]"
    unfolding one_batch_store_def example_admit_def r
    by (simp add: createStream_fields new_store_def text_message_msgid)
  show "streamIdToBatchKey one_batch_store = [example_id 0x31 \<mapsto> js ''wecom:default:U:U'']"
    unfolding one_batch_store_def example_admit_def r
    using ne by (simp add: createStream_fields new_store_def truthy_def)
  show "msgidToStreamId one_batch_store = [js ''M1'' \<mapsto> example_id 0x31]"
    unfolding one_batch_store_def example_admit_def r
    using ne by (simp add: createStream_fields new_store_def truthy_def text_message_msgid)
  show "batchStreamIdToAckStreamIds one_batch_store = Map.empty"
    unfolding one_batch_store_def example_admit_def r
    by (simp add: createStream_fields new_store_def)
qed

lemma one_batch_reachable: "reachable ok one_batch_store" if "ok (js ''wecom:default:U:U'')"
  unfolding one_batch_store_def example_admit_def
  by (rule reachable.admit [where ok = ok, OF reachable.start that])
     (simp add: fresh_stream_id_def example_id_ok hex_digits new_store_def)

lemma example_keys:
  "queued_key (js ''wecom:default:U:U'') 1 = js ''wecom:default:U:U#q1''"
  "js ''wecom:default:U:U'' \<noteq> []" "js ''wecom:default:U:U#q1'' \<noteq> []"
  "js ''wecom:default:U:U#q1'' \<noteq> js ''wecom:default:U:U''"
  "conv_key_ok (js ''wecom:default:U:U'')"
  by (simp_all add: queued_key_def show_nat.simps js_def conv_key_ok_def)

lemma one_batch_fresh: "fresh_stream_id one_batch_store (example_id 0x32)"
  by (simp add: fresh_stream_id_def example_id_ok hex_digits one_batch_fields example_id_eq)

lemma one_batch_closed:
  "\<not> active_open one_batch_store (js ''wecom:default:U:U'')
       \<lparr>activeBatchKey = js ''wecom:default:U:U'', queue = [], nextSeq = 1\<rparr>"
  "queued_pending one_batch_store
       \<lparr>activeBatchKey = js ''wecom:default:U:U'', queue = [], nextSeq = 1\<rparr> = None"
  by (simp_all add: active_open_def queued_pending_def)

lemma two_batch_fields:
  "conversationState two_batch_store =
     [js ''wecom:default:U:U'' \<mapsto>
        \<lparr>activeBatchKey = js ''wecom:default:U:U'', queue = [js ''wecom:default:U:U#q1''],
         nextSeq = 2\<rparr>]"
  "pendingInbounds two_batch_store =
     (pendingInbounds one_batch_store)(js ''wecom:default:U:U#q1'' \<mapsto>
        new_pending (example_id 0x32) (js ''wecom:default:U:U'') (js ''wecom:default:U:U#q1'')
          example_target (text_message ''M2'') (js ''M2'') (js ''n'') (js ''t'') 0 DEFAULT_DEBOUNCE_MS)"
  "streams two_batch_store =
     (streams one_batch_store)(example_id 0x32 \<mapsto> \<lparr>st_streamId = example_id 0x32,
        st_msgid = Some (js ''M2''), st_conversationKey = Some (js ''wecom:default:U:U''),
        st_batchKey = Some (js ''wecom:default:U:U#q1''), createdAt = 0, updatedAt = 0,
        started = False, finished = False, content = [], images = None, fallbackMode = None\<rparr>)"
  "streamIdToBatchKey two_batch_store =
     (streamIdToBatchKey one_batch_store)(example_id 0x32 \<mapsto> js ''wecom:default:U:U#q1'')"
  "msgidToStreamId two_batch_store = [js ''M1'' \<mapsto> example_id 0x31, js ''M2'' \<mapsto> example_id 0x32]"
  "batchStreamIdToAckStreamIds two_batch_store = Map.empty"
proof -
  define st where "st = \<lparr>activeBatchKey = js ''wecom:default:U:U'', queue = [], nextSeq = 1\<rparr>"
  have c: "conversationState one_batch_store (js ''wecom:default:U:U'') = Some st"
    by (simp add: one_batch_fields st_def)
  have o: "\<not> active_open one_batch_store (js ''wecom:default:U:U'') st"
    unfolding st_def by (rule one_batch_closed)
  have q: "queued_pending one_batch_store st = None"
    unfolding st_def by (rule one_batch_closed)
  have ne: "js ''M2'' \<noteq> []" by (simp add: js_def)
  have n: "nextSeq st = 1" "st\<lparr>nextSeq := 2, queue := [js ''wecom:default:U:U#q1'']\<rparr> =
      \<lparr>activeBatchKey = js ''wecom:default:U:U'', queue = [js ''wecom:default:U:U#q1''], nextSeq = 2\<rparr>"
    by (simp_all add: st_def)
  note r = add_not_open [OF c o, unfolded q option.case n(1) example_keys(1)]
  show "conversationState two_batch_store =
     [js ''wecom:default:U:U'' \<mapsto>
        \<lparr>activeBatchKey = js ''wecom:default:U:U'', queue = [js ''wecom:default:U:U#q1''],
         nextSeq = 2\<rparr>]"
    unfolding two_batch_store_def example_admit_def r
    by (simp add: createStream_fields one_batch_fields st_def numeral_2_eq_2)
  show "pendingInbounds two_batch_store =
     (pendingInbounds one_batch_store)(js ''wecom:default:U:U#q1'' \<mapsto>
        new_pending (example_id 0x32) (js ''wecom:default:U:U'') (js ''wecom:default:U:U#q1'')
          example_target (text_message ''M2'') (js ''M2'') (js ''n'') (js ''t'') 0 DEFAULT_DEBOUNCE_MS)"
    unfolding two_batch_store_def example_admit_def r
    by (simp add: debounce_of_def)
  show "streams two_batch_store =
     (streams one_batch_store)(example_id 0x32 \<mapsto> \<lparr>st_streamId = example_id 0x32,
        st_msgid = Some (js ''M2''), st_conversationKey = Some (js ''wecom:default:U:U''),
        st_batchKey = Some (js ''wecom:default:U:U#q1''), createdAt = 0, updatedAt = 0,
        started = False, finished = False, content = [], images = None, fallbackMode = None\<rparr>)"
    unfolding two_batch_store_def example_admit_def r
    by (simp add: createStream_fields text_message_msgid)
  show "streamIdToBatchKey two_batch_store =
     (streamIdToBatchKey one_batch_store)(example_id 0x32 \<mapsto> js ''wecom:default:U:U#q1'')"
    unfolding two_batch_store_def example_admit_def r
    by (simp add: createStream_fields truthy_def example_keys)
  show "msgidToStreamId two_batch_store = [js ''M1'' \<mapsto> example_id 0x31, js ''M2'' \<mapsto> example_id 0x32]"
    unfolding two_batch_store_def example_admit_def r
    using ne by (simp add: createStream_fields truthy_def text_message_msgid one_batch_fields)
  show "batchStreamIdToAckStreamIds two_batch_store = Map.empty"
    unfolding two_batch_store_def example_admit_def r
    by (simp add: createStream_fields one_batch_fields)
qed

lemma two_batch_reachable: "reachable ok two_batch_store" if "ok (js ''wecom:default:U:U'')"
  unfolding two_batch_store_def example_admit_def
  by (rule reachable.admit [where ok = ok, OF one_batch_reachable [where ok = ok, OF that] that
        one_batch_fresh])

lemma two_batch_fresh: "fresh_stream_id two_batch_store (example_id 0x33)"
  by (simp add: fresh_stream_id_def example_id_ok hex_digits one_batch_fields two_batch_fields
        example_id_eq)

lemma example_conversation:
  "conversation_key example_target (text_message mid) = js ''wecom:default:U:U''"
  by (simp add: conversation_key_def resolveWecomSenderUserId_def trimmed_or_def trim_def
        text_message_def inbound_def example_target_def js_def js_whitespace_def Let_def)

lemma text_message_type:
  "lower_string (msg_msgtype (text_message mid)) \<noteq> js ''event''"
  "lower_string (msg_msgtype (text_message mid)) \<noteq> js ''stream''"
  by (simp_all add: lower_string_def text_message_def inbound_def js_def ascii_lower_def)

lemma two_batch_admit:
  "snd (addPendingMessage two_batch_store (js ''wecom:default:U:U'') target msg msgContent nonce
          timestamp debounce r now) = (example_id 0x32, queued_merged)"
proof -
  define st where "st = \<lparr>activeBatchKey = js ''wecom:default:U:U'',
     queue = [js ''wecom:default:U:U#q1''], nextSeq = 2\<rparr>"
  have c: "conversationState two_batch_store (js ''wecom:default:U:U'') = Some st"
    by (simp add: two_batch_fields st_def)
  have o: "\<not> active_open two_batch_store (js ''wecom:default:U:U'') st"
    by (simp add: active_open_def st_def)
  have q: "queued_pending two_batch_store st = Some (js ''wecom:default:U:U#q1'',
      new_pending (example_id 0x32) (js ''wecom:default:U:U'') (js ''wecom:default:U:U#q1'')
          example_target (text_message ''M2'') (js ''M2'') (js ''n'') (js ''t'') 0 DEFAULT_DEBOUNCE_MS)"
    by (simp add: queued_pending_def st_def two_batch_fields example_keys)
  show ?thesis
    unfolding add_not_open [OF c o] q
    by (simp add: merged_pending_stream new_pending_stream)
qed

lemma short_keys:
  "queued_key (js ''c'') (Suc 0) = js ''c#q1''" "queued_key (js ''c'') 2 = js ''c#q2''"
  "js ''c'' \<noteq> []" "js ''c#q1'' \<noteq> []" "js ''c#q1'' \<noteq> js ''c''" "js ''c'' \<noteq> js ''c#q1''"
  "js ''c#q2'' \<noteq> js ''c''" "js ''c#q2'' \<noteq> js ''c#q1''" "js ''c#q2'' \<noteq> []"
  by (simp_all add: queued_key_def show_nat.simps js_def)

lemma crossed_store_facts:
  "conversationState crossed_store (js ''c'') =
     Some \<lparr>activeBatchKey = js ''c#q1'', queue = [js ''c#q2''], nextSeq = 3\<rparr>"
  "pendingInbounds crossed_store (js ''c#q2'') =
     Some (new_pending (example_id 0x33) (js ''c'') (js ''c#q2'') example_target
             (text_message ''M3'') (js ''M3'') (js ''n'') (js ''t'') 0 DEFAULT_DEBOUNCE_MS)"
  "pendingInbounds crossed_store (js ''c#q1'') =
     Some (new_pending (example_id 0x34) (js ''c#q1'') (js ''c#q1'') example_target
             (text_message ''M4'') (js ''M4'') (js ''n'') (js ''t'') 0 DEFAULT_DEBOUNCE_MS)"
  "\<not> stream_started crossed_store (example_id 0x34)"
  "reachable any_key crossed_store"
proof -
  define c where "c = js ''c''"
  define q1 where "q1 = js ''c#q1''"
  define q2 where "q2 = js ''c#q2''"
  note k = short_keys [folded c_def q1_def q2_def]
  define s1 where "s1 = example_admit new_store ''c'' ''M1'' 0x31"
  define s2 where "s2 = example_admit s1 ''c'' ''M2'' 0x32"
  define s3 where "s3 = fst (requestFlush s2 c)"
  define s4 where "s4 = fst (onStreamFinished s3 (example_id 0x31))"
  define s5 where "s5 = fst (requestFlush s4 q1)"
  define s6 where "s6 = example_admit s5 ''c'' ''M3'' 0x33"
  define s7 where "s7 = example_admit s6 ''c#q1'' ''M4'' 0x34"
  have s7: "crossed_store = s7"
    by (simp add: crossed_store_def Let_def s7_def s6_def s5_def s4_def s3_def s2_def s1_def
          c_def q1_def)
  note ids = example_id_eq example_id_ok hex_digits fresh_stream_id_def
  note cs = createStream_fields truthy_def text_message_msgid
  have e1: "s1 = (fst (createStream new_store (msg_msgid (text_message ''M1'')) (Some c) (Some c)
                 (example_id 0x31) 0))\<lparr>
        pendingInbounds := (pendingInbounds new_store)(c \<mapsto>
           new_pending (example_id 0x31) c c example_target (text_message ''M1'') (js ''M1'')
             (js ''n'') (js ''t'') 0 (debounce_of None)),
        conversationState := (conversationState new_store)(c \<mapsto>
           \<lparr>activeBatchKey = c, queue = [], nextSeq = 1\<rparr>)\<rparr>"
    unfolding s1_def example_admit_def c_def [symmetric]
    by (subst add_first) (simp_all add: new_store_def)
  have f1: "fresh_stream_id new_store (example_id 0x31)"
    by (simp add: ids new_store_def)
  have C1: "conversationState s1 c = Some \<lparr>activeBatchKey = c, queue = [], nextSeq = 1\<rparr>"
    by (simp add: e1)
  have e2: "s2 = (fst (createStream
             (s1\<lparr>conversationState := (conversationState s1)(c \<mapsto>
                 \<lparr>activeBatchKey = c, queue = [q1], nextSeq = 2\<rparr>)\<rparr>)
             (msg_msgid (text_message ''M2'')) (Some c) (Some q1) (example_id 0x32) 0))\<lparr>
        pendingInbounds := (pendingInbounds s1)(q1 \<mapsto>
           new_pending (example_id 0x32) c q1 example_target (text_message ''M2'') (js ''M2'')
             (js ''n'') (js ''t'') 0 (debounce_of None))\<rparr>"
    unfolding s2_def example_admit_def c_def [symmetric]
    by (subst add_not_open [OF C1])
       (simp_all add: active_open_def queued_pending_def k numeral_2_eq_2)
  have f2: "fresh_stream_id s1 (example_id 0x32)"
    by (simp add: ids e1 cs new_store_def)
  have e3: "s3 = s2\<lparr>pendingInbounds := (pendingInbounds s2)(c := None)\<rparr>"
    unfolding s3_def
    by (subst requestFlush_active [where conv = "\<lparr>activeBatchKey = c, queue = [q1], nextSeq = 2\<rparr>"
          and pending = "new_pending (example_id 0x31) c c example_target (text_message ''M1'') (js ''M1'')
             (js ''n'') (js ''t'') 0 (debounce_of None)"])
       (simp_all add: e2 e1 cs k new_pending_def)
  have a3: "active_conversation_of s3 (example_id 0x31) =
      Some (c, \<lparr>activeBatchKey = c, queue = [q1], nextSeq = 2\<rparr>)"
    by (simp add: active_conversation_of_def e3 e2 e1 cs k ids new_store_def)
  have e4: "s4 = s3\<lparr>conversationState := (conversationState s3)(c \<mapsto>
                     \<lparr>activeBatchKey = q1, queue = [], nextSeq = 2\<rparr>)\<rparr>"
    unfolding s4_def
    by (subst onStreamFinished_promote [OF a3, where nxt = q1 and rest = "[]"])
       (simp_all add: k e3 e2 e1 cs new_pending_def Let_def)
  have e5: "s5 = s4\<lparr>pendingInbounds := (pendingInbounds s4)(q1 := None)\<rparr>"
    unfolding s5_def
    by (subst requestFlush_active [where conv = "\<lparr>activeBatchKey = q1, queue = [], nextSeq = 2\<rparr>"
          and pending = "new_pending (example_id 0x32) c q1 example_target (text_message ''M2'') (js ''M2'')
             (js ''n'') (js ''t'') 0 (debounce_of None)"])
       (simp_all add: e4 e3 e2 e1 cs k new_pending_def)
  have C5: "conversationState s5 c = Some \<lparr>activeBatchKey = q1, queue = [], nextSeq = 2\<rparr>"
    by (simp add: e5 e4)
  have e6: "s6 = (fst (createStream
             (s5\<lparr>conversationState := (conversationState s5)(c \<mapsto>
                 \<lparr>activeBatchKey = q1, queue = [q2], nextSeq = 3\<rparr>)\<rparr>)
             (msg_msgid (text_message ''M3'')) (Some c) (Some q2) (example_id 0x33) 0))\<lparr>
        pendingInbounds := (pendingInbounds s5)(q2 \<mapsto>
           new_pending (example_id 0x33) c q2 example_target (text_message ''M3'') (js ''M3'')
             (js ''n'') (js ''t'') 0 (debounce_of None))\<rparr>"
    unfolding s6_def example_admit_def c_def [symmetric]
    by (subst add_not_open [OF C5])
       (simp_all add: active_open_def queued_pending_def k e5)
  have f6: "fresh_stream_id s5 (example_id 0x33)"
    by (simp add: ids e5 e4 e3 e2 e1 cs new_store_def)
  have e7: "s7 = (fst (createStream s6 (msg_msgid (text_message ''M4'')) (Some q1) (Some q1)
                 (example_id 0x34) 0))\<lparr>
        pendingInbounds := (pendingInbounds s6)(q1 \<mapsto>
           new_pending (example_id 0x34) q1 q1 example_target (text_message ''M4'') (js ''M4'')
             (js ''n'') (js ''t'') 0 (debounce_of None)),
        conversationState := (conversationState s6)(q1 \<mapsto>
           \<lparr>activeBatchKey = q1, queue = [], nextSeq = 1\<rparr>)\<rparr>"
    unfolding s7_def example_admit_def q1_def [symmetric]
    by (subst add_first) (simp_all add: e6 e5 e4 e3 e2 e1 cs k new_store_def)
  have f7: "fresh_stream_id s6 (example_id 0x34)"
    by (simp add: ids e6 e5 e4 e3 e2 e1 cs new_store_def)
  show "conversationState crossed_store (js ''c'') =
     Some \<lparr>activeBatchKey = js ''c#q1'', queue = [js ''c#q2''], nextSeq = 3\<rparr>"
    unfolding s7 c_def [symmetric] q1_def [symmetric] q2_def [symmetric]
    by (simp add: e7 e6 cs k)
  show "pendingInbounds crossed_store (js ''c#q2'') =
     Some (new_pending (example_id 0x33) (js ''c'') (js ''c#q2'') example_target
             (text_message ''M3'') (js ''M3'') (js ''n'') (js ''t'') 0 DEFAULT_DEBOUNCE_MS)"
    unfolding s7 c_def [symmetric] q1_def [symmetric] q2_def [symmetric]
    by (simp add: e7 e6 cs k debounce_of_def)
  show "pendingInbounds crossed_store (js ''c#q1'') =
     Some (new_pending (example_id 0x34) (js ''c#q1'') (js ''c#q1'') example_target
             (text_message ''M4'') (js ''M4'') (js ''n'') (js ''t'') 0 DEFAULT_DEBOUNCE_MS)"
    unfolding s7 c_def [symmetric] q1_def [symmetric] q2_def [symmetric]
    by (simp add: e7 debounce_of_def)
  show "\<not> stream_started crossed_store (example_id 0x34)"
    unfolding s7 by (simp add: e7 cs stream_started_def)
  have any: "any_key x" for x by (simp add: any_key_def)
  have r1: "reachable any_key s1"
    unfolding s1_def example_admit_def
    by (rule reachable.admit [where ok = any_key, OF reachable.start any f1])
  have r2: "reachable any_key s2"
    unfolding s2_def example_admit_def
    by (rule reachable.admit [where ok = any_key, OF r1 any f2])
  have r3: "reachable any_key s3"
    unfolding s3_def by (rule reachable.timer [OF r2])
  have r4: "reachable any_key s4"
    unfolding s4_def by (rule reachable.finish [OF r3])
  have r5: "reachable any_key s5"
    unfolding s5_def by (rule reachable.timer [OF r4])
  have r6: "reachable any_key s6"
    unfolding s6_def example_admit_def
    by (rule reachable.admit [where ok = any_key, OF r5 any f6])
  show "reachable any_key crossed_store"
    unfolding s7 s7_def example_admit_def
    by (rule reachable.admit [where ok = any_key, OF r6 any f7])
qed

section \<open>Admission into the conversation queue\<close>

text \<open>
  Claim C1. In a store built by the operations from the empty one, whatever the conversation
  keys, take a conversation whose active batch is the initial batch (its \<open>activeBatchKey\<close>
  is the conversation key) and let the next random stream id be fresh. Then
  \<open>addPendingMessage\<close> on a further message does not merge into the active batch. Its
  status is \<open>queued_new\<close> when no queued batch of the conversation is waiting
  (\<open>queued_pending\<close>, the lookup the code does) and \<open>queued_merged\<close> otherwise. The stream
  id it returns is not the id of a stream filed under the initial batch key, and so not the
  stream id of the pending entry of the initial batch. The pending entry stored under the
  initial batch key, with its contents and msg-id lists, is the same after the call.
\<close>

theorem initial_batch_never_merges:
  assumes "reachable ok store" and "conversationState store conversationKey = Some st"
    and "activeBatchKey st = conversationKey" and "fresh_stream_id store random_hex"
  shows "(let (store', streamId, status) =
            addPendingMessage store conversationKey target msg msgContent nonce timestamp debounce
              random_hex now
          in status = (if queued_pending store st = None then queued_new else queued_merged) \<and>
             (\<forall>a. streamIdToBatchKey store a = Some conversationKey \<longrightarrow> streamId \<noteq> a) \<and>
             (\<forall>active. pendingInbounds store conversationKey = Some active \<longrightarrow>
                streamId \<noteq> p_streamId active) \<and>
             pendingInbounds store' conversationKey = pendingInbounds store conversationKey)"
proof -
  note inv = reachable_batch_inv [OF assms(1)]
  note d = batch_invD [OF inv]
  have closed: "\<not> active_open store conversationKey st"
    using assms(3) by (simp add: active_open_def)
  show ?thesis
  proof (cases "queued_pending store st")
    case None
    define bk where "bk = queued_key conversationKey (nextSeq st)"
    have bk: "bk \<noteq> conversationKey" by (simp add: bk_def queued_key_not_initial)
    have fr: "streams store random_hex = None"
      using assms(4) by (simp add: fresh_stream_id_def)
    have fresh: "random_hex \<noteq> a" if "streamIdToBatchKey store a = Some conversationKey" for a
      using d(4) [OF that] fr by auto
    have own: "random_hex \<noteq> p_streamId active"
      if "pendingInbounds store conversationKey = Some active" for active
      using d(2) [OF that] fr by auto
    show ?thesis
      unfolding add_not_open [OF assms(2) closed] None
      using bk fresh own by (simp add: bk_def)
  next
    case (Some qe)
    obtain q e where qe: "qe = (q, e)" by (cases qe)
    note q = queued_pending_SomeD [OF Some [unfolded qe]]
    from q(1,2) have "q \<in> set (queue st)" by simp
    from d(5) [OF assms(2) this] have qck: "q \<noteq> conversationKey"
      using queued_key_not_initial by auto
    have filed: "streamIdToBatchKey store (p_streamId e) = Some q"
      using d(3) [OF q(4)] q(3) by simp
    have other: "p_streamId e \<noteq> a" if "streamIdToBatchKey store a = Some conversationKey" for a
      using that filed qck by auto
    have own: "p_streamId e \<noteq> p_streamId active"
      if "pendingInbounds store conversationKey = Some active" for active
      using d(3) [OF that] filed qck by (auto split: if_splits)
    show ?thesis
      unfolding add_not_open [OF assms(2) closed] Some qe
      using qck other own by simp
  qed
qed

theorem initial_batch_never_merges_witness:
  "reachable any_key one_batch_store \<and>
   conversationState one_batch_store (js ''wecom:default:U:U'') =
     Some \<lparr>activeBatchKey = js ''wecom:default:U:U'', queue = [], nextSeq = 1\<rparr> \<and>
   fresh_stream_id one_batch_store (example_id 0x32) \<and>
   streamIdToBatchKey one_batch_store (example_id 0x31) = Some (js ''wecom:default:U:U'') \<and>
   p_streamId (the (pendingInbounds one_batch_store (js ''wecom:default:U:U''))) = example_id 0x31 \<and>
   fst (snd (addPendingMessage one_batch_store (js ''wecom:default:U:U'') example_target
          (text_message ''M2'') (js ''M2'') (js ''n'') (js ''t'') None (example_id 0x32) 0))
     \<noteq> example_id 0x31 \<and>
   snd (snd (addPendingMessage one_batch_store (js ''wecom:default:U:U'') example_target
          (text_message ''M2'') (js ''M2'') (js ''n'') (js ''t'') None (example_id 0x32) 0))
     = queued_new \<and>
   pendingInbounds two_batch_store (js ''wecom:default:U:U'') =
     pendingInbounds one_batch_store (js ''wecom:default:U:U'')"
proof -
  define st where "st = \<lparr>activeBatchKey = js ''wecom:default:U:U'', queue = [], nextSeq = 1\<rparr>"
  have r: "reachable any_key one_batch_store"
    by (rule one_batch_reachable) (simp add: any_key_def)
  have c: "conversationState one_batch_store (js ''wecom:default:U:U'') = Some st"
    by (simp add: one_batch_fields st_def)
  have a: "activeBatchKey st = js ''wecom:default:U:U''"
    by (simp add: st_def)
  have q: "queued_pending one_batch_store st = None"
    unfolding st_def by (rule one_batch_closed)
  have b: "streamIdToBatchKey one_batch_store (example_id 0x31) = Some (js ''wecom:default:U:U'')"
    by (simp add: one_batch_fields)
  have p: "p_streamId (the (pendingInbounds one_batch_store (js ''wecom:default:U:U''))) = example_id 0x31"
    by (simp add: one_batch_fields new_pending_stream)
  from initial_batch_never_merges [OF r c a one_batch_fresh, of example_target
      "text_message ''M2''" "js ''M2''" "js ''n''" "js ''t''" None 0]
  show ?thesis
    using r c [unfolded st_def] b p one_batch_fresh
    by (simp add: split_def Let_def q two_batch_store_def example_admit_def)
qed

text \<open>
  With plain conversation keys the queue discipline of the store holds as a whole. In every
  store built from the empty one by admissions for conversation keys that are not empty
  and contain no \<open>#\<close>, timer firings, stream completions and stream bookkeeping, each
  conversation entry has its one \<open>activeBatchKey\<close> and a queue of at most one batch key.
  When the queue is not empty its head has a pending entry, and \<open>addPendingMessage\<close> for
  the conversation merges into that entry: the status is \<open>queued_merged\<close>, the stream id
  is that of the queued batch, the content is appended (and the msg-id when there is one),
  the timer is restarted, and nothing else in the store changes, so that no second queued
  batch is created.
\<close>

theorem queue_at_most_one:
  assumes "reachable conv_key_ok store" and "conversationState store conversationKey = Some st"
  shows "length (queue st) \<le> 1 \<and>
     (queue st \<noteq> [] \<longrightarrow>
        (\<exists>queued. pendingInbounds store (hd (queue st)) = Some queued \<and>
           addPendingMessage store conversationKey target msg msgContent nonce timestamp debounce
               random_hex now =
             (store\<lparr>pendingInbounds := (pendingInbounds store)(hd (queue st) \<mapsto>
                 queued\<lparr>contents := contents queued @ [msgContent],
                        msgids := (if truthy (msg_msgid msg)
                                   then msgids queued @ [the (msg_msgid msg)] else msgids queued),
                        timeout := Some (debounce_of debounce)\<rparr>)\<rparr>,
              p_streamId queued, queued_merged)))"
proof -
  note inv = reachable_inv [OF assms(1)]
  note i = store_invD [OF inv]
  note sh = conv_invD [OF i(3) assms(2)]
  have len: "length (queue st) \<le> 1"
    using conv_shape_queue(1) [OF sh(2)] by (cases "queue st = []") simp_all
  have merge: "\<exists>queued. pendingInbounds store (hd (queue st)) = Some queued \<and>
           addPendingMessage store conversationKey target msg msgContent nonce timestamp debounce
               random_hex now =
             (store\<lparr>pendingInbounds := (pendingInbounds store)(hd (queue st) \<mapsto>
                 queued\<lparr>contents := contents queued @ [msgContent],
                        msgids := (if truthy (msg_msgid msg)
                                   then msgids queued @ [the (msg_msgid msg)] else msgids queued),
                        timeout := Some (debounce_of debounce)\<rparr>)\<rparr>,
              p_streamId queued, queued_merged)"
    if q: "queue st \<noteq> []"
  proof -
    from queued_pending_reachable(2) [OF inv assms(2) q]
    obtain e where e: "pendingInbounds store (hd (queue st)) = Some e" by auto
    have closed: "\<not> active_open store conversationKey st"
      using queue_invD(2) [OF i(4) assms(2) q] .
    have m: "merged_pending e msgContent (msg_msgid msg) (debounce_of debounce) =
        e\<lparr>contents := contents e @ [msgContent],
          msgids := (if truthy (msg_msgid msg) then msgids e @ [the (msg_msgid msg)] else msgids e),
          timeout := Some (debounce_of debounce)\<rparr>"
      by (auto simp: merged_pending_def truthy_def split: option.splits)
    show ?thesis
      unfolding add_not_open [OF assms(2) closed] queued_pending_reachable(1) [OF inv assms(2)]
      using q e by (simp add: m)
  qed
  from len merge show ?thesis by blast
qed

theorem queue_at_most_one_example:
  "reachable conv_key_ok two_batch_store \<and>
   conversationState two_batch_store (js ''wecom:default:U:U'') =
     Some \<lparr>activeBatchKey = js ''wecom:default:U:U'', queue = [js ''wecom:default:U:U#q1''],
           nextSeq = 2\<rparr> \<and>
   p_streamId (the (pendingInbounds two_batch_store (js ''wecom:default:U:U#q1''))) = example_id 0x32 \<and>
   snd (addPendingMessage two_batch_store (js ''wecom:default:U:U'') example_target
          (text_message ''M3'') (js ''M3'') (js ''n'') (js ''t'') None (example_id 0x33) 0)
     = (example_id 0x32, queued_merged) \<and>
   conversationState (fst (addPendingMessage two_batch_store (js ''wecom:default:U:U'') example_target
          (text_message ''M3'') (js ''M3'') (js ''n'') (js ''t'') None (example_id 0x33) 0))
       (js ''wecom:default:U:U'') =
     Some \<lparr>activeBatchKey = js ''wecom:default:U:U'', queue = [js ''wecom:default:U:U#q1''],
           nextSeq = 2\<rparr>"
proof -
  define st where "st = \<lparr>activeBatchKey = js ''wecom:default:U:U'',
     queue = [js ''wecom:default:U:U#q1''], nextSeq = 2\<rparr>"
  have r: "reachable conv_key_ok two_batch_store"
    by (rule two_batch_reachable) (rule example_keys)
  have c: "conversationState two_batch_store (js ''wecom:default:U:U'') = Some st"
    by (simp add: two_batch_fields st_def)
  have q: "queue st \<noteq> []" "hd (queue st) = js ''wecom:default:U:U#q1''"
    by (simp_all add: st_def)
  have p: "p_streamId (the (pendingInbounds two_batch_store (js ''wecom:default:U:U#q1''))) = example_id 0x32"
    by (simp add: two_batch_fields new_pending_stream)
  from queue_at_most_one [OF r c, of example_target "text_message ''M3''" "js ''M3''" "js ''n''"
      "js ''t''" None "example_id 0x33" 0] q
  obtain queued where e: "pendingInbounds two_batch_store (js ''wecom:default:U:U#q1'') = Some queued"
    and a: "addPendingMessage two_batch_store (js ''wecom:default:U:U'') example_target
          (text_message ''M3'') (js ''M3'') (js ''n'') (js ''t'') None (example_id 0x33) 0 =
             (two_batch_store\<lparr>pendingInbounds := (pendingInbounds two_batch_store)(js ''wecom:default:U:U#q1'' \<mapsto>
                 queued\<lparr>contents := contents queued @ [js ''M3''],
                        msgids := (if truthy (msg_msgid (text_message ''M3''))
                                   then msgids queued @ [the (msg_msgid (text_message ''M3''))] else msgids queued),
                        timeout := Some (debounce_of None)\<rparr>)\<rparr>,
              p_streamId queued, queued_merged)"
    by auto
  from e p have "p_streamId queued = example_id 0x32" by simp
  then show ?thesis
    using r c [unfolded st_def] p by (simp add: a)
qed

text \<open>
  Claim C2 at two conversations whose keys cross. Each conversation entry holds one
  \<open>activeBatchKey\<close> and a queue of at most one batch key whatever the keys are
  (\<open>queue_length_reachable\<close>), but a message that arrives while a queued batch exists is
  not always merged into that batch. \<open>crossed_store\<close> is built by admissions, timer firings
  and a stream completion. In it conversation \<open>c\<close> has the queued batch \<open>c#q2\<close> with its
  pending entry, and its active batch key \<open>c#q1\<close> is also the key under which the other
  conversation, \<open>c#q1\<close>, keeps its waiting first batch. The next message of \<open>c\<close> is merged
  into that batch of the other conversation: the status is \<open>active_merged\<close> and the stream
  id is that of the other conversation's batch.
\<close>

theorem queue_merge_crossed_keys:
  "reachable any_key crossed_store \<and>
   conversationState crossed_store (js ''c'') =
     Some \<lparr>activeBatchKey = js ''c#q1'', queue = [js ''c#q2''], nextSeq = 3\<rparr> \<and>
   pendingInbounds crossed_store (js ''c#q2'') =
     Some (new_pending (example_id 0x33) (js ''c'') (js ''c#q2'') example_target
             (text_message ''M3'') (js ''M3'') (js ''n'') (js ''t'') 0 DEFAULT_DEBOUNCE_MS) \<and>
   snd (addPendingMessage crossed_store (js ''c'') example_target (text_message ''M5'') (js ''M5'')
          (js ''n'') (js ''t'') None (example_id 0x35) 0) = (example_id 0x34, active_merged)"
proof -
  define st where "st = \<lparr>activeBatchKey = js ''c#q1'', queue = [js ''c#q2''], nextSeq = 3\<rparr>"
  have c: "conversationState crossed_store (js ''c'') = Some st"
    by (simp add: crossed_store_facts(1) st_def)
  have p: "pendingInbounds crossed_store (activeBatchKey st) =
     Some (new_pending (example_id 0x34) (js ''c#q1'') (js ''c#q1'') example_target
             (text_message ''M4'') (js ''M4'') (js ''n'') (js ''t'') 0 DEFAULT_DEBOUNCE_MS)"
    by (simp add: crossed_store_facts(3) st_def)
  have o: "active_open crossed_store (js ''c'') st"
    unfolding active_open_def p
    using crossed_store_facts(4) by (simp add: st_def short_keys new_pending_stream)
  have "snd (addPendingMessage crossed_store (js ''c'') example_target (text_message ''M5'') (js ''M5'')
          (js ''n'') (js ''t'') None (example_id 0x35) 0) = (example_id 0x34, active_merged)"
    unfolding add_merge_active [OF c o p]
    by (simp add: new_pending_stream)
  then show ?thesis
    using crossed_store_facts(1,2,5) by simp
qed

text \<open>
  Claim C3. Let the handler receive a message that is neither an event nor a stream poll
  and whose msg-id is not mapped to a stream yet, in a store built by the operations from
  the empty one, and let \<open>addPendingMessage\<close> return \<open>active_merged\<close> or \<open>queued_merged\<close>;
  let the random id of the ack stream be fresh. Then \<open>addPendingMessage\<close> leaves the
  msg-id map as it was, so the msg-id is not mapped to the stream of the batch. The ack
  stream is not the stream of the batch; after the handler it is in the store, started, not
  finished, without batch key, with the content \<open>mergedQueuedPlaceholder\<close>; the msg-id is
  mapped to it; it is appended to the ack streams registered for the stream of the batch;
  the reply is the stream placeholder with the id of the ack stream, \<open>finish\<close> false and
  the same content; and the agent is not started.
\<close>

theorem merged_message_gets_ack_stream:
  assumes "reachable ok (streamStore ms)"
    and "lower_string (msg_msgtype msg) \<noteq> js ''event''"
    and "lower_string (msg_msgtype msg) \<noteq> js ''stream''"
    and "\<forall>m. msg_msgid msg = Some m \<longrightarrow> m \<noteq> [] \<longrightarrow> \<not> truthy (getStreamByMsgId (streamStore ms) m)"
    and "snd (snd (addPendingMessage (streamStore ms) (conversation_key target msg) target msg
                     msgContent nonce timestamp (debounceMs target) random_hex now))
           \<in> {active_merged, queued_merged}"
    and "fresh_stream_id (streamStore ms) random_hex2"
  shows "(let (store1, batchStreamId, status) =
                addPendingMessage (streamStore ms) (conversation_key target msg) target msg
                  msgContent nonce timestamp (debounceMs target) random_hex now;
              (ms', response, effects) =
                handleBotPost ms target msg msgContent nonce timestamp random_hex random_hex2 now
          in msgidToStreamId store1 = msgidToStreamId (streamStore ms) \<and>
             random_hex2 \<noteq> batchStreamId \<and>
             (\<exists>ack. streams (streamStore ms') random_hex2 = Some ack \<and> started ack \<and>
                  \<not> finished ack \<and> content ack = mergedQueuedPlaceholder \<and>
                  st_batchKey ack = None) \<and>
             (\<forall>m. msg_msgid msg = Some m \<longrightarrow> m \<noteq> [] \<longrightarrow>
                  getStreamByMsgId (streamStore ms') m = Some random_hex2) \<and>
             batchStreamIdToAckStreamIds (streamStore ms') batchStreamId =
               Some ((case batchStreamIdToAckStreamIds (streamStore ms) batchStreamId of
                        None \<Rightarrow> [] | Some l \<Rightarrow> l) @ [random_hex2]) \<and>
             response = jsonOk (StreamJson random_hex2 False mergedQueuedPlaceholder []) nonce timestamp \<and>
             effects = [])"
proof -
  define store where "store = streamStore ms"
  note inv = reachable_batch_inv [OF assms(1), folded store_def]
  note d = batch_invD [OF inv]
  obtain store1 sid status where A:
    "addPendingMessage store (conversation_key target msg) target msg msgContent nonce timestamp
        (debounceMs target) random_hex now = (store1, sid, status)"
    by (cases "addPendingMessage store (conversation_key target msg) target msg msgContent nonce
                 timestamp (debounceMs target) random_hex now") auto
  have status: "status \<noteq> active_new" "status \<noteq> queued_new"
    using assms(5) by (auto simp: A store_def [symmetric])
  from add_merged [OF inv, of "conversation_key target msg" target msg msgContent nonce timestamp
      "debounceMs target" random_hex now] assms(5)
  obtain k p where p: "pendingInbounds store k = Some p"
    and s1: "store1 = store\<lparr>pendingInbounds := (pendingInbounds store)(k \<mapsto>
            merged_pending p msgContent (msg_msgid msg) (debounce_of (debounceMs target)))\<rparr>"
    and sid: "sid = p_streamId p"
    by (auto simp: A store_def [symmetric])
  have r2: "is_stream_id random_hex2" "streams store random_hex2 = None"
    using assms(6) by (simp_all add: fresh_stream_id_def store_def)
  have sid_ok: "is_stream_id sid" using d(1) [OF p] by (simp add: sid)
  have distinct: "random_hex2 \<noteq> sid" using d(2) [OF p] r2(2) by (auto simp: sid)
  have unmapped: "msgidToStreamId store1 = msgidToStreamId store"
      "batchStreamIdToAckStreamIds store1 = batchStreamIdToAckStreamIds store"
    by (simp_all add: s1)
  have fresh_msg: "\<not> truthy (case msg_msgid msg of
                                   None \<Rightarrow> None
                                 | Some m \<Rightarrow> if m \<noteq> [] then getStreamByMsgId store m else None)"
    using assms(4) by (auto simp: truthy_def store_def split: option.splits)
  define ms1 where "ms1 = (if truthy (msg_response_url msg)
                         then storeActiveReply (ms\<lparr>streamStore := store1\<rparr>) sid
                                (msg_response_url msg) (proxyUrl target) now
                       else ms\<lparr>streamStore := store1\<rparr>)"
  have ms1: "streamStore ms1 = store1"
    by (simp add: ms1_def storeActiveReply_store)
  note tail = ack_tail [OF r2(1) sid_ok, of store1 msg now]
  have h: "handleBotPost ms target msg msgContent nonce timestamp random_hex random_hex2 now =
      (let (store2, ackStreamId) =
                     createStream store1
                       (if truthy (msg_msgid msg) then msg_msgid msg else None) None None
                       random_hex2 now;
                   store3 = updateStream store2 ackStreamId
                      (\<lambda>s. s\<lparr>finished := False, started := True,
                               content := mergedQueuedPlaceholder\<rparr>) now;
                   store4 = (case msg_msgid msg of
                               None \<Rightarrow> store3
                             | Some m \<Rightarrow> if m \<noteq> [] then setStreamIdForMsgId store3 m ackStreamId
                                         else store3);
                   store5 = addAckStreamForBatch store4 sid ackStreamId
               in (ms1\<lparr>streamStore := store5\<rparr>,
                   jsonOk (buildStreamTextPlaceholderReply ackStreamId mergedQueuedPlaceholder)
                     nonce timestamp,
                   []))"
    unfolding handleBotPost_def store_def [symmetric] Let_def
    using assms(2,3) fresh_msg status
    by (simp add: A ms1_def [symmetric] ms1)
  define store2 where "store2 = fst (createStream store1
      (if truthy (msg_msgid msg) then msg_msgid msg else None) None None random_hex2 now)"
  have c: "createStream store1 (if truthy (msg_msgid msg) then msg_msgid msg else None) None None
      random_hex2 now = (store2, random_hex2)"
    by (simp add: store2_def prod_eq_iff createStream_fields(1))
  note tail' = tail [unfolded c prod.case Let_def]
  note h' = h [unfolded c prod.case Let_def]
  show ?thesis
    unfolding store_def [symmetric] A h' Let_def prod.case
    using tail' distinct
    by (simp add: unmapped buildStreamTextPlaceholderReply_def merged_placeholder_trim)
qed

theorem merged_message_gets_ack_stream_witness:
  "reachable any_key (streamStore two_batch_monitor) \<and>
   lower_string (msg_msgtype (text_message ''M3'')) \<noteq> js ''event'' \<and>
   lower_string (msg_msgtype (text_message ''M3'')) \<noteq> js ''stream'' \<and>
   msg_msgid (text_message ''M3'') = Some (js ''M3'') \<and>
   getStreamByMsgId (streamStore two_batch_monitor) (js ''M3'') = None \<and>
   snd (addPendingMessage (streamStore two_batch_monitor)
          (conversation_key example_target (text_message ''M3'')) example_target
          (text_message ''M3'') (js ''M3'') (js ''n'') (js ''t'') (debounceMs example_target)
          (example_id 0x34) 0) = (example_id 0x32, queued_merged) \<and>
   fresh_stream_id (streamStore two_batch_monitor) (example_id 0x33) \<and>
   fst (snd (handleBotPost two_batch_monitor example_target (text_message ''M3'') (js ''M3'')
               (js ''n'') (js ''t'') (example_id 0x34) (example_id 0x33) 0)) =
     jsonOk (StreamJson (example_id 0x33) False mergedQueuedPlaceholder []) (js ''n'') (js ''t'') \<and>
   getStreamByMsgId (streamStore (fst (handleBotPost two_batch_monitor example_target
               (text_message ''M3'') (js ''M3'') (js ''n'') (js ''t'') (example_id 0x34)
               (example_id 0x33) 0))) (js ''M3'') = Some (example_id 0x33) \<and>
   batchStreamIdToAckStreamIds (streamStore (fst (handleBotPost two_batch_monitor example_target
               (text_message ''M3'') (js ''M3'') (js ''n'') (js ''t'') (example_id 0x34)
               (example_id 0x33) 0))) (example_id 0x32) = Some [example_id 0x33]"
proof -
  have s: "streamStore two_batch_monitor = two_batch_store"
    by (simp add: two_batch_monitor_def)
  have r: "reachable any_key (streamStore two_batch_monitor)"
    unfolding s by (rule two_batch_reachable) (simp add: any_key_def)
  have ne: "js ''M3'' \<noteq> []" by (simp add: js_def)
  have neq: "js ''M3'' \<noteq> js ''M1''" "js ''M3'' \<noteq> js ''M2''" by (simp_all add: js_def)
  have g: "getStreamByMsgId (streamStore two_batch_monitor) (js ''M3'') = None"
    using neq by (simp add: s getStreamByMsgId_def two_batch_fields)
  have d: "\<forall>m. msg_msgid (text_message ''M3'') = Some m \<longrightarrow> m \<noteq> [] \<longrightarrow>
      \<not> truthy (getStreamByMsgId (streamStore two_batch_monitor) m)"
    using g by (simp add: text_message_msgid truthy_def)
  have a: "snd (addPendingMessage (streamStore two_batch_monitor)
          (conversation_key example_target (text_message ''M3'')) example_target
          (text_message ''M3'') (js ''M3'') (js ''n'') (js ''t'') (debounceMs example_target)
          (example_id 0x34) 0) = (example_id 0x32, queued_merged)"
    unfolding s example_conversation by (rule two_batch_admit)
  have m: "snd (snd (addPendingMessage (streamStore two_batch_monitor)
          (conversation_key example_target (text_message ''M3'')) example_target
          (text_message ''M3'') (js ''M3'') (js ''n'') (js ''t'') (debounceMs example_target)
          (example_id 0x34) 0)) \<in> {active_merged, queued_merged}"
    by (simp add: a)
  have f: "fresh_stream_id (streamStore two_batch_monitor) (example_id 0x33)"
    unfolding s by (rule two_batch_fresh)
  have acks: "batchStreamIdToAckStreamIds (streamStore two_batch_monitor) (example_id 0x32) = None"
    by (simp add: s two_batch_fields)
  from merged_message_gets_ack_stream [OF r text_message_type d m f]
  show ?thesis
    using r text_message_type [of "''M3''"] g a f ne
    by (simp add: split_def Let_def text_message_msgid acks)
qed

section \<open>Properties of the access-token cache\<close>

lemma cache_entry_upd: "cache_entry (m(k \<mapsto> c)) k = c"
  by (simp add: cache_entry_def)

lemma cache_entry_fresh_Some:
  "token (cache_entry m k) \<noteq> [] \<Longrightarrow> m k = Some (cache_entry m k)"
  by (simp add: cache_entry_def new_cache_def split: option.splits)

lemma cache_entry_promise_Some:
  "refreshPromise (cache_entry m k) = Some p \<Longrightarrow> m k = Some (cache_entry m k)"
  by (simp add: cache_entry_def new_cache_def split: option.splits)

lemma getAccessToken_fresh:
  assumes "token (cache_entry m (cache_key agent)) \<noteq> []"
    and "expiresAt (cache_entry m (cache_key agent)) > now + 60000"
  shows "getAccessToken m agent now outcome now' =
    (m, Inr (token (cache_entry m (cache_key agent))), False)"
proof -
  have "m (cache_key agent) = Some (cache_entry m (cache_key agent))"
    using assms(1) by (rule cache_entry_fresh_Some)
  then have "m(cache_key agent \<mapsto> cache_entry m (cache_key agent)) = m"
    by (simp add: map_upd_triv)
  with assms show ?thesis
    by (simp add: getAccessToken_def getAccessToken_call_def Let_def TOKEN_REFRESH_BUFFER_MS_def)
qed

text \<open>A refresh whose body throws while it builds the URL: no request is sent, the call
  fails with the \<open>URIError\<close>, and the rejected promise is left in the entry.\<close>

lemma early_throw_keeps_promise:
  assumes "uri_error (corpId agent) \<or> uri_error (corpSecret agent)"
    and "\<not> (token (cache_entry m (cache_key agent)) \<noteq> [] \<and>
            expiresAt (cache_entry m (cache_key agent)) > now + 60000)"
    and "refreshPromise (cache_entry m (cache_key agent)) = None"
  shows "getAccessToken m agent now outcome now' =
    (m(cache_key agent \<mapsto>
         (cache_entry m (cache_key agent))\<lparr>refreshPromise := Some (Rejected URIError)\<rparr>),
     Inl URIError, False)"
  using assms
  by (auto simp: getAccessToken_def getAccessToken_call_def Let_def TOKEN_REFRESH_BUFFER_MS_def)

text \<open>Once a rejected promise is in the entry, every call that does not find a fresh token
  returns it: no request is sent and the entry stays as it is.\<close>

lemma rejected_promise_stays:
  assumes "refreshPromise (cache_entry m (cache_key agent)) = Some (Rejected e)"
    and "\<not> (token (cache_entry m (cache_key agent)) \<noteq> [] \<and>
            expiresAt (cache_entry m (cache_key agent)) > later + 60000)"
  shows "getAccessToken m agent later outcome later' = (m, Inl e, False)"
proof -
  have "m (cache_key agent) = Some (cache_entry m (cache_key agent))"
    using assms(1) by (rule cache_entry_promise_Some)
  then have "m(cache_key agent \<mapsto> cache_entry m (cache_key agent)) = m"
    by (simp add: map_upd_triv)
  with assms show ?thesis
    by (auto simp: getAccessToken_def getAccessToken_call_def Let_def TOKEN_REFRESH_BUFFER_MS_def)
qed

lemma surrogate_agent_throws: "uri_error (corpId surrogate_agent)"
  by (simp add: uri_error_def well_formed_def surrogate_agent_def is_surrogate_def)

lemma getAccessToken_stale:
  assumes "\<not> (token (cache_entry m (cache_key agent)) \<noteq> [] \<and>
            expiresAt (cache_entry m (cache_key agent)) > now + 60000)"
    and "\<not> uri_error (corpId agent)" "\<not> uri_error (corpSecret agent)"
    and "refreshPromise (cache_entry m (cache_key agent)) \<in> {None, Some RefreshInFlight}"
  shows "getAccessToken m agent now outcome now' =
    (fst (refresh_settled (fst (getAccessToken_call m agent now)) (cache_key agent) outcome now'),
     snd (refresh_settled (fst (getAccessToken_call m agent now)) (cache_key agent) outcome now'),
     refreshPromise (cache_entry m (cache_key agent)) = None)"
  using assms
  by (auto simp: getAccessToken_def getAccessToken_call_def Let_def TOKEN_REFRESH_BUFFER_MS_def
        split: prod.splits)

lemma stale_call_entry:
  assumes "\<not> (token (cache_entry m (cache_key agent)) \<noteq> [] \<and>
            expiresAt (cache_entry m (cache_key agent)) > now + 60000)"
  shows "token (cache_entry (fst (getAccessToken_call m agent now)) (cache_key agent)) =
           token (cache_entry m (cache_key agent))"
    and "expiresAt (cache_entry (fst (getAccessToken_call m agent now)) (cache_key agent)) =
           expiresAt (cache_entry m (cache_key agent))"
  using assms
  by (auto simp: getAccessToken_call_def Let_def TOKEN_REFRESH_BUFFER_MS_def cache_entry_upd
        split: option.splits)

lemma refresh_settled_clears:
  "refreshPromise (cache_entry (fst (refresh_settled m k outcome t)) k) = None"
  by (auto simp: refresh_settled_def Let_def cache_entry_upd
        split: fetch_outcome.splits option.splits)

lemma refresh_settled_failed_keeps:
  assumes "isl (snd (refresh_settled m k outcome t))"
  shows "token (cache_entry (fst (refresh_settled m k outcome t)) k) = token (cache_entry m k)"
    and "expiresAt (cache_entry (fst (refresh_settled m k outcome t)) k) = expiresAt (cache_entry m k)"
  using assms
  by (auto simp: refresh_settled_def Let_def cache_entry_upd
        split: fetch_outcome.splits option.splits if_splits)

lemma refresh_settled_result:
  "(case outcome of
      FetchThrows \<Rightarrow> snd (refresh_settled m k outcome t) = Inl TransportError
    | FetchJson None \<Rightarrow> snd (refresh_settled m k outcome t) = Inl (GetTokenFailed None None)
    | FetchJson (Some json) \<Rightarrow>
        (case access_token json of
           None \<Rightarrow> snd (refresh_settled m k outcome t) = Inl (GetTokenFailed (errcode json) (errmsg json))
         | Some tok \<Rightarrow>
             tok \<noteq> [] \<longrightarrow>
               snd (refresh_settled m k outcome t) = Inr tok \<and>
               token (cache_entry (fst (refresh_settled m k outcome t)) k) = tok \<and>
               expiresAt (cache_entry (fst (refresh_settled m k outcome t)) k) =
                 t + (case expires_in json of None \<Rightarrow> 7200 | Some e \<Rightarrow> e) * 1000))"
  by (auto simp: refresh_settled_def Let_def cache_entry_upd
        split: fetch_outcome.splits option.splits)

lemma call_after_clear:
  assumes "refreshPromise (cache_entry m (cache_key agent)) = None"
    and "\<not> (token (cache_entry m (cache_key agent)) \<noteq> [] \<and>
            expiresAt (cache_entry m (cache_key agent)) > now + 60000)"
    and "\<not> uri_error (corpId agent)" "\<not> uri_error (corpSecret agent)"
  shows "snd (getAccessToken_call m agent now) = RefreshStarted"
  using assms by (auto simp: getAccessToken_call_def Let_def TOKEN_REFRESH_BUFFER_MS_def)

text \<open>
  What holds for an account whose corp id and secret \<open>encodeURIComponent\<close> accepts, when
  the entry holds no rejected promise. With \<open>c\<close> the cache entry of the account at the
  call: when \<open>c\<close> holds a token whose expiry lies more than 60 seconds after \<open>now\<close>,
  \<open>getAccessToken\<close> returns that token, leaves the caches as they are and does not fetch
  the token endpoint. Otherwise its result is that of a refresh, which this call starts
  itself unless one is already in flight; the refresh fails when the response has no
  \<open>access_token\<close>; on success the token is cached with expiry \<open>now'\<close> (the time the
  response arrives) plus \<open>expires_in\<close> seconds, 7200 when absent; and however the refresh
  ends, the stored promise is cleared, so that after a failure a later call starts a
  refresh again.
\<close>

lemma getAccessToken_sent_request:
  assumes enc: "\<not> uri_error (corpId agent)" "\<not> uri_error (corpSecret agent)"
    and pr: "refreshPromise (cache_entry tokenCaches (cache_key agent)) \<in> {None, Some RefreshInFlight}"
  shows
  "(let c = cache_entry tokenCaches (cache_key agent);
        res = getAccessToken tokenCaches agent now outcome now';
        c' = cache_entry (fst res) (cache_key agent)
    in
   (token c \<noteq> [] \<and> expiresAt c > now + 60000 \<longrightarrow> res = (tokenCaches, Inr (token c), False)) \<and>
   (\<not> (token c \<noteq> [] \<and> expiresAt c > now + 60000) \<longrightarrow>
      snd (snd res) = (refreshPromise c = None) \<and>
      refreshPromise c' = None \<and>
      (isl (fst (snd res)) \<and> now \<le> later \<longrightarrow>
         snd (getAccessToken_call (fst res) agent later) = RefreshStarted) \<and>
      (case outcome of
         FetchThrows \<Rightarrow> fst (snd res) = Inl TransportError
       | FetchJson None \<Rightarrow> fst (snd res) = Inl (GetTokenFailed None None)
       | FetchJson (Some json) \<Rightarrow>
           (case access_token json of
              None \<Rightarrow> fst (snd res) = Inl (GetTokenFailed (errcode json) (errmsg json))
            | Some tok \<Rightarrow>
                tok \<noteq> [] \<longrightarrow>
                  fst (snd res) = Inr tok \<and> token c' = tok \<and>
                  expiresAt c' =
                    now' + (case expires_in json of None \<Rightarrow> 7200 | Some e \<Rightarrow> e) * 1000))))"
proof -
  define k where "k = cache_key agent"
  define c where "c = cache_entry tokenCaches k"
  define res where "res = getAccessToken tokenCaches agent now outcome now'"
  define m1 where "m1 = fst (getAccessToken_call tokenCaches agent now)"
  define m2 where "m2 = fst (refresh_settled m1 k outcome now')"
  define r where "r = snd (refresh_settled m1 k outcome now')"
  have fresh: "res = (tokenCaches, Inr (token c), False)"
    if "token c \<noteq> [] \<and> expiresAt c > now + 60000"
    using that getAccessToken_fresh [where m=tokenCaches and agent=agent and now=now]
    by (simp add: c_def res_def k_def)
  have stale: "fst res = m2 \<and> fst (snd res) = r \<and> snd (snd res) = (refreshPromise c = None)"
    if "\<not> (token c \<noteq> [] \<and> expiresAt c > now + 60000)"
    using that getAccessToken_stale [where m=tokenCaches and agent=agent and now=now, OF _ enc pr]
    by (simp add: c_def res_def m1_def m2_def r_def k_def)
  have cleared: "refreshPromise (cache_entry m2 k) = None"
    unfolding m2_def by (rule refresh_settled_clears)
  have retry: "snd (getAccessToken_call m2 agent later) = RefreshStarted"
    if "\<not> (token c \<noteq> [] \<and> expiresAt c > now + 60000)" "isl r" "now \<le> later"
  proof (rule call_after_clear [OF cleared [unfolded k_def] _ enc])
    have "token (cache_entry m2 k) = token c" "expiresAt (cache_entry m2 k) = expiresAt c"
      using that(1,2) refresh_settled_failed_keeps [where m=m1 and k=k and outcome=outcome and t="now'"]
        stale_call_entry [where m=tokenCaches and agent=agent and now=now]
      by (simp_all add: m1_def m2_def c_def r_def k_def)
    with that show "\<not> (token (cache_entry m2 (cache_key agent)) \<noteq> [] \<and>
        later + 60000 < expiresAt (cache_entry m2 (cache_key agent)))"
      by (auto simp: k_def)
  qed
  have outcome: "case outcome of
         FetchThrows \<Rightarrow> r = Inl TransportError
       | FetchJson None \<Rightarrow> r = Inl (GetTokenFailed None None)
       | FetchJson (Some json) \<Rightarrow>
           (case access_token json of
              None \<Rightarrow> r = Inl (GetTokenFailed (errcode json) (errmsg json))
            | Some tok \<Rightarrow>
                tok \<noteq> [] \<longrightarrow>
                  r = Inr tok \<and> token (cache_entry m2 k) = tok \<and>
                  expiresAt (cache_entry m2 k) =
                    now' + (case expires_in json of None \<Rightarrow> 7200 | Some e \<Rightarrow> e) * 1000)"
    unfolding r_def m2_def by (rule refresh_settled_result)
  show ?thesis
    unfolding Let_def k_def [symmetric] c_def [symmetric] res_def [symmetric]
  proof (intro conjI impI)
    assume "token c \<noteq> [] \<and> now + 60000 < expiresAt c"
    then show "res = (tokenCaches, Inr (token c), False)" by (rule fresh)
  next
    assume s: "\<not> (token c \<noteq> [] \<and> now + 60000 < expiresAt c)"
    show "snd (snd res) = (refreshPromise c = None)"
      using stale [OF s] by simp
    show "refreshPromise (cache_entry (fst res) k) = None"
      using stale [OF s] cleared by simp
    show "snd (getAccessToken_call (fst res) agent later) = RefreshStarted"
      if "isl (fst (snd res)) \<and> now \<le> later"
      using that stale [OF s] retry [OF s] by simp
    show "case outcome of
         FetchThrows \<Rightarrow> fst (snd res) = Inl TransportError
       | FetchJson None \<Rightarrow> fst (snd res) = Inl (GetTokenFailed None None)
       | FetchJson (Some json) \<Rightarrow>
           (case access_token json of
              None \<Rightarrow> fst (snd res) = Inl (GetTokenFailed (errcode json) (errmsg json))
            | Some tok \<Rightarrow>
                tok \<noteq> [] \<longrightarrow>
                  fst (snd res) = Inr tok \<and> token (cache_entry (fst res) k) = tok \<and>
                  expiresAt (cache_entry (fst res) k) =
                    now' + (case expires_in json of None \<Rightarrow> 7200 | Some e \<Rightarrow> e) * 1000)"
    proof -
      have e: "fst res = m2" "fst (snd res) = r" using stale [OF s] by simp_all
      show ?thesis unfolding e by (rule outcome)
    qed
  qed
qed

text \<open>
  Claim C7 at an account whose corp id is an unpaired surrogate, with an empty cache. The
  refresh fails with the \<open>URIError\<close> before any request is sent, and the promise stored in
  the entry is not cleared: the rejected promise is left there. A call made 9000 seconds
  later, with no fresh token in the entry, gets the same rejected promise, sends no
  request and leaves the entry as it is, so the refresh is never tried again.
\<close>

theorem refresh_promise_not_cleared:
  "getAccessToken Map.empty surrogate_agent 1000
      (FetchJson (Some \<lparr>access_token = Some (js ''T1''), expires_in = None, errcode = None,
                        errmsg = None\<rparr>)) 1500
     = ([cache_key surrogate_agent \<mapsto>
           \<lparr>token = [], expiresAt = 0, refreshPromise = Some (Rejected URIError)\<rparr>],
        Inl URIError, False) \<and>
   getAccessToken
      [cache_key surrogate_agent \<mapsto>
           \<lparr>token = [], expiresAt = 0, refreshPromise = Some (Rejected URIError)\<rparr>]
      surrogate_agent 9001000
      (FetchJson (Some \<lparr>access_token = Some (js ''T1''), expires_in = None, errcode = None,
                        errmsg = None\<rparr>)) 9001500
     = ([cache_key surrogate_agent \<mapsto>
           \<lparr>token = [], expiresAt = 0, refreshPromise = Some (Rejected URIError)\<rparr>],
        Inl URIError, False)"
proof -
  have first: "getAccessToken Map.empty surrogate_agent 1000 outcome 1500
     = ([cache_key surrogate_agent \<mapsto>
           \<lparr>token = [], expiresAt = 0, refreshPromise = Some (Rejected URIError)\<rparr>],
        Inl URIError, False)" for outcome
    by (subst early_throw_keeps_promise)
       (simp_all add: surrogate_agent_throws cache_entry_def new_cache_def)
  have second: "getAccessToken
      [cache_key surrogate_agent \<mapsto>
           \<lparr>token = [], expiresAt = 0, refreshPromise = Some (Rejected URIError)\<rparr>]
      surrogate_agent 9001000 outcome 9001500
     = ([cache_key surrogate_agent \<mapsto>
           \<lparr>token = [], expiresAt = 0, refreshPromise = Some (Rejected URIError)\<rparr>],
        Inl URIError, False)" for outcome
    by (rule rejected_promise_stays) (simp_all add: cache_entry_def)
  show ?thesis by (simp only: first second simp_thms)
qed

lemma plain_agent_encodes: "\<not> uri_error (corpId plain_agent)" "\<not> uri_error (corpSecret plain_agent)"
  by (simp_all add: uri_error_def well_formed_def plain_agent_def js_def is_surrogate_def
        is_high_surrogate_def)

text \<open>For comparison, a failed request of the plain account: the stored promise is cleared
  and the next call sends a request again.\<close>

lemma plain_agent_retries:
  "getAccessToken Map.empty plain_agent 1000 FetchThrows 1500
     = ([cache_key plain_agent \<mapsto> \<lparr>token = [], expiresAt = 0, refreshPromise = None\<rparr>],
        Inl TransportError, True) \<and>
   snd (getAccessToken_call
          [cache_key plain_agent \<mapsto> \<lparr>token = [], expiresAt = 0, refreshPromise = None\<rparr>]
          plain_agent 2000) = RefreshStarted"
  using plain_agent_encodes
  by (simp add: getAccessToken_def getAccessToken_call_def refresh_settled_def cache_entry_def
        new_cache_def TOKEN_REFRESH_BUFFER_MS_def Let_def)

section \<open>Properties of the text accumulation\<close>

lemma code_points_plain:
  "list_all (\<lambda>u. \<not> is_high_surrogate u) us \<Longrightarrow> code_points us = us"
  by (induction us rule: code_points.induct) simp_all

lemma ascii_bytes: "concat (replicate n (utf8_bytes_of 97)) = replicate n 97"
  by (induction n) (simp_all add: utf8_bytes_of_def)

lemma ascii_decoded: "utf8_code_points (replicate n 97) = replicate n 97"
  by (induction n) simp_all

lemma ascii_units: "concat (replicate n (utf16_units_of 97)) = replicate n 97"
  by (induction n) (simp_all add: utf16_units_of_def)

lemma euro_units: "map unat (euro_text n) = 8364 # replicate n 97"
  by (simp add: euro_text_def)

lemma euro_encoded: "map unat (utf8_encode (euro_text n)) = 226 # 130 # 172 # replicate n 97"
proof -
  have c: "code_points (8364 # replicate n 97) = 8364 # replicate n 97"
    by (rule code_points_plain) (simp add: list_all_iff is_high_surrogate_def)
  have b: "utf8_bytes_of 8364 = [226, 130, 172]"
    by (simp add: utf8_bytes_of_def is_surrogate_def)
  show ?thesis
    unfolding utf8_code_points_encode euro_units c
    by (simp add: b ascii_bytes)
qed

lemma euro_length: "length (utf8_encode (euro_text n)) = n + 3"
proof -
  have "length (map unat (utf8_encode (euro_text n))) = n + 3"
    unfolding euro_encoded by simp
  then show ?thesis by simp
qed

lemma euro_truncated:
  "truncateUtf8Bytes (euro_text n) (n + 2) = 0xFFFD # 0xFFFD # replicate n 0x61"
proof -
  have "map unat (drop 1 (utf8_encode (euro_text n))) = 130 # 172 # replicate n 97"
    by (simp add: drop_map [symmetric] euro_encoded del: drop_map)
  then have "utf8_code_points (map unat (drop 1 (utf8_encode (euro_text n)))) =
      65533 # 65533 # replicate n 97"
    by (simp add: ascii_decoded)
  then have "utf8_decode (drop 1 (utf8_encode (euro_text n))) = 0xFFFD # 0xFFFD # replicate n 0x61"
    by (simp add: utf8_decode_def ascii_units utf16_units_of_def)
  then show ?thesis
    by (simp add: truncateUtf8Bytes_def Let_def euro_length)
qed

lemma replaced_length: "length (utf8_encode (0xFFFD # 0xFFFD # replicate n 0x61)) = n + 6"
proof -
  have u: "map unat (0xFFFD # 0xFFFD # replicate n 0x61 :: jsstring) = 65533 # 65533 # replicate n 97"
    by simp
  have c: "code_points (65533 # 65533 # replicate n 97) = 65533 # 65533 # replicate n 97"
    by (rule code_points_plain) (simp add: list_all_iff is_high_surrogate_def)
  have b: "utf8_bytes_of 65533 = [239, 191, 189]"
    by (simp add: utf8_bytes_of_def is_surrogate_def)
  have "map unat (utf8_encode (0xFFFD # 0xFFFD # replicate n 0x61)) =
      239 # 191 # 189 # 239 # 191 # 189 # replicate n 97"
    unfolding utf8_code_points_encode u c
    by (simp add: b ascii_bytes)
  then have "length (map unat (utf8_encode (0xFFFD # 0xFFFD # replicate n 0x61))) = n + 6"
    by simp
  then show ?thesis by simp
qed

lemma trim_plain:
  assumes "s \<noteq> []" "\<not> js_whitespace (hd s)" "\<not> js_whitespace (last s)"
  shows "trim s = s"
proof -
  have 1: "dropWhile js_whitespace s = s"
    using assms(1,2) by (cases s) auto
  have 2: "dropWhile js_whitespace (rev s) = rev s"
    using assms(1,3) by (cases "rev s") (auto simp: hd_rev [symmetric])
  show ?thesis by (simp add: trim_def 1 2)
qed

lemma euro_trim: "trim (euro_text (Suc n)) = euro_text (Suc n)"
  by (rule trim_plain) (simp_all add: euro_text_def js_whitespace_def)

text \<open>What the text accumulation stores: the truncation of the accumulated text.\<close>

lemma deliver_text_content:
  assumes "getStream store streamId = Some current" "fallbackMode current = None"
  shows "map_option content (getStream (deliver_text store streamId text now) streamId) =
     Some (truncateUtf8Bytes
             (if content current \<noteq> [] then trim (content current @ [0x0A, 0x0A] @ text)
              else trim text) STREAM_MAX_BYTES)"
  using assms
  by (simp add: deliver_text_def getStream_def updateStream_def Let_def)

lemma empty_stream:
  "getStream empty_stream_store (example_id 0x31) =
     Some \<lparr>st_streamId = example_id 0x31, st_msgid = None, st_conversationKey = None,
           st_batchKey = None, createdAt = 0, updatedAt = 0, started = False,
           finished = False, content = [], images = None, fallbackMode = None\<rparr>"
  by (simp add: empty_stream_store_def getStream_def createStream_fields)

text \<open>
  Claim C9 at a text that is one byte too long and begins with a character of three
  bytes. The block text is the euro sign followed by 20478 letters \<open>a\<close>, 20481 bytes of
  UTF-8, delivered to a stream without content. The last 20480 bytes begin with the two
  continuation bytes of the euro sign, and each of them is decoded as U+FFFD. The stored
  content is U+FFFD U+FFFD followed by the letters, and its own UTF-8 encoding has 20484
  bytes, more than \<open>STREAM_MAX_BYTES\<close>.
\<close>

theorem deliver_text_exceeds_limit:
  "length (utf8_encode (euro_text 20478)) = 20481 \<and>
   map_option content
     (getStream (deliver_text empty_stream_store (example_id 0x31) (euro_text 20478) 1)
        (example_id 0x31)) = Some (0xFFFD # 0xFFFD # replicate 20478 0x61) \<and>
   length (utf8_encode (0xFFFD # 0xFFFD # replicate 20478 0x61)) = 20484 \<and>
   STREAM_MAX_BYTES = 20480"
proof -
  have n: "(20478::nat) = Suc 20477" by simp
  have t: "trim (euro_text 20478) = euro_text 20478"
    unfolding n by (rule euro_trim)
  have c: "truncateUtf8Bytes (euro_text 20478) STREAM_MAX_BYTES = 0xFFFD # 0xFFFD # replicate 20478 0x61"
    using euro_truncated [of 20478] by (simp add: STREAM_MAX_BYTES_def)
  have d: "map_option content
     (getStream (deliver_text empty_stream_store (example_id 0x31) (euro_text 20478) 1)
        (example_id 0x31)) = Some (0xFFFD # 0xFFFD # replicate 20478 0x61)"
    by (subst deliver_text_content [OF empty_stream]) (simp_all add: t c)
  show ?thesis
    using euro_length [of 20478] replaced_length [of 20478] d
    by (simp add: STREAM_MAX_BYTES_def)
qed

end
